theory Spec2Isabelle
  imports Main
begin

section \<open>Regular expressions\<close>

text \<open>
  The program does all of its work through JavaScript regular expressions: three
  literals of its own, the operator's find pattern, and one pattern per token that it
  builds from the token's text. This section is the matcher those calls run.

  A string is a list of characters; a character stands for one code unit below 256.
  The fragment of the pattern language that is modelled: literal characters, \<open>.\<close>,
  character classes with ranges and the escapes \<open>\d \D \w \W \s \S\<close>, the control
  escapes \<open>\n \r \t \f \v\<close>, escaped punctuation and escaped letters that stand for
  themselves, \<open>^\<close>, \<open>$\<close>, \<open>\b\<close> and \<open>\B\<close>, alternation, capturing and
  non-capturing groups, the quantifiers \<open>* + ?\<close>, greedy or lazy, and a brace that does
  not open a quantifier.
  Flags \<open>g\<close> and \<open>m\<close> are modelled; no call of the program sets any other flag.
\<close>

datatype cclass = Digit | Word | Space

datatype citem = CChar char | CRange char char | CCls cclass | CNotCls cclass

datatype regex =
    Empty
  | Lit char
  | Dot
  | Class bool "citem list"
  | Bol
  | Eol
  | Seq regex regex
  | Alt regex regex
  | Group nat regex
  | Opt bool regex
  | Star bool regex
  | WordB bool

definition code :: "char \<Rightarrow> nat" where
  "code c = of_char c"

definition line_terminator :: "char \<Rightarrow> bool" where
  "line_terminator c = (code c = 10 \<or> code c = 13)"

definition is_digit :: "char \<Rightarrow> bool" where
  "is_digit c = (48 \<le> code c \<and> code c \<le> 57)"

definition is_word :: "char \<Rightarrow> bool" where
  "is_word c =
     (is_digit c \<or> (65 \<le> code c \<and> code c \<le> 90) \<or> (97 \<le> code c \<and> code c \<le> 122) \<or> code c = 95)"

definition is_space :: "char \<Rightarrow> bool" where
  "is_space c = ((9 \<le> code c \<and> code c \<le> 13) \<or> code c = 32 \<or> code c = 160)"

fun in_cclass :: "cclass \<Rightarrow> char \<Rightarrow> bool" where
  "in_cclass Digit c = is_digit c"
| "in_cclass Word c = is_word c"
| "in_cclass Space c = is_space c"

fun in_citem :: "citem \<Rightarrow> char \<Rightarrow> bool" where
  "in_citem (CChar a) c = (c = a)"
| "in_citem (CRange a b) c = (code a \<le> code c \<and> code c \<le> code b)"
| "in_citem (CCls k) c = in_cclass k c"
| "in_citem (CNotCls k) c = (\<not> in_cclass k c)"

text \<open>\<open>Class neg items\<close> is \<open>[...]\<close>, or \<open>[^...]\<close> when \<open>neg\<close> holds.\<close>

definition in_class :: "bool \<Rightarrow> citem list \<Rightarrow> char \<Rightarrow> bool" where
  "in_class neg items c = (list_ex (\<lambda>i. in_citem i c) items \<noteq> neg)"

text \<open>
  The state of one match attempt: the character before the current position (none at
  the start of the input), the input still to be read, and the captures. Entry \<open>k\<close>
  of \<open>caps\<close> is the text of group \<open>k\<close>, \<open>None\<close> while the group is undefined;
  entry 0 is not used by the matcher.
\<close>

record mstate =
  prev :: "char option"
  rest :: string
  caps :: "string option list"

fun group_ids :: "regex \<Rightarrow> nat list" where
  "group_ids (Seq a b) = group_ids a @ group_ids b"
| "group_ids (Alt a b) = group_ids a @ group_ids b"
| "group_ids (Group k r) = k # group_ids r"
| "group_ids (Opt g r) = group_ids r"
| "group_ids (Star g r) = group_ids r"
| "group_ids r = []"

text \<open>Each round of a quantifier starts with the groups inside it undefined.\<close>

definition reset :: "regex \<Rightarrow> mstate \<Rightarrow> mstate" where
  "reset r st = st\<lparr>caps := fold (\<lambda>k cs. cs[k := None]) (group_ids r) (caps st)\<rparr>"

definition one :: "(char \<Rightarrow> bool) \<Rightarrow> mstate \<Rightarrow> mstate list" where
  "one p st =
     (case rest st of
        [] \<Rightarrow> []
      | c # cs \<Rightarrow> if p c then [st\<lparr>prev := Some c, rest := cs\<rparr>] else [])"

text \<open>A round of \<open>*\<close> or \<open>?\<close> that reads nothing is rejected.\<close>

definition progress :: "mstate \<Rightarrow> mstate \<Rightarrow> bool" where
  "progress st st' = (length (rest st') < length (rest st))"

definition capture :: "nat \<Rightarrow> mstate \<Rightarrow> mstate \<Rightarrow> mstate" where
  "capture k st st' =
     st'\<lparr>caps := (caps st')[k := Some (take (length (rest st) - length (rest st')) (rest st))]\<rparr>"

definition at_bol :: "bool \<Rightarrow> mstate \<Rightarrow> bool" where
  "at_bol multi st = (case prev st of None \<Rightarrow> True | Some c \<Rightarrow> multi \<and> line_terminator c)"

definition at_eol :: "bool \<Rightarrow> mstate \<Rightarrow> bool" where
  "at_eol multi st = (case rest st of [] \<Rightarrow> True | c # cs \<Rightarrow> multi \<and> line_terminator c)"

text \<open>\<open>\b\<close> holds where exactly one of the characters before and after the position
  is a word character; outside the input there is none. \<open>WordB True\<close> is \<open>\B\<close>.\<close>

definition at_word_boundary :: "mstate \<Rightarrow> bool" where
  "at_word_boundary st =
     ((case prev st of None \<Rightarrow> False | Some c \<Rightarrow> is_word c)
      \<noteq> (case rest st of [] \<Rightarrow> False | c # cs \<Rightarrow> is_word c))"

text \<open>A greedy quantifier tries another round before it tries to stop; a lazy one the
  other way round.\<close>

definition alternatives :: "bool \<Rightarrow> mstate list \<Rightarrow> mstate \<Rightarrow> mstate list" where
  "alternatives greedy sts st = (if greedy then sts @ [st] else st # sts)"

text \<open>
  \<open>m multi r st\<close> lists every way in which \<open>r\<close> matches at \<open>st\<close>, in the order in which
  a backtracking matcher tries them; the head of the list is the match that JavaScript
  reports. \<open>multi\<close> is the multiline flag.
\<close>

function m :: "bool \<Rightarrow> regex \<Rightarrow> mstate \<Rightarrow> mstate list" where
  "m multi Empty st = [st]"
| "m multi (Lit c) st = one (\<lambda>x. x = c) st"
| "m multi Dot st = one (\<lambda>x. \<not> line_terminator x) st"
| "m multi (Class neg items) st = one (in_class neg items) st"
| "m multi Bol st = (if at_bol multi st then [st] else [])"
| "m multi Eol st = (if at_eol multi st then [st] else [])"
| "m multi (Seq a b) st = concat (map (m multi b) (m multi a st))"
| "m multi (Alt a b) st = m multi a st @ m multi b st"
| "m multi (Group k r) st = map (capture k st) (m multi r st)"
| "m multi (Opt g r) st = alternatives g (filter (progress st) (m multi r (reset r st))) st"
| "m multi (Star g r) st =
     alternatives g
       (concat (map (m multi (Star g r)) (filter (progress st) (m multi r (reset r st))))) st"
| "m multi (WordB neg) st = (if at_word_boundary st \<noteq> neg then [st] else [])"
  by pat_completeness auto
termination
  by (relation "inv_image (less_than <*lex*> less_than) (\<lambda>(multi, r, st). (size r, length (rest st)))")
     (auto simp: progress_def)

declare m.simps(11) [simp del]

subsection \<open>Every match reads a prefix of the input\<close>

lemma one_suffix: "st' \<in> set (one p st) \<Longrightarrow> \<exists>u. rest st = u @ rest st'"
  by (cases "rest st") (auto simp: one_def split: if_splits)

lemma m_suffix: "st' \<in> set (m multi r st) \<Longrightarrow> \<exists>u. rest st = u @ rest st'"
proof (induction multi r st arbitrary: st' rule: m.induct)
  case (7 multi a b st)
  then obtain st1 where a: "st1 \<in> set (m multi a st)" and b: "st' \<in> set (m multi b st1)"
    by auto
  from "7.IH"(1)[OF a] obtain u where u: "rest st = u @ rest st1" by blast
  from "7.IH"(2)[OF a b] obtain v where "rest st1 = v @ rest st'" by blast
  with u show ?case by simp
next
  case (9 multi k r st)
  then show ?case by (auto simp: capture_def)
next
  case (10 multi g r st)
  then show ?case by (fastforce simp: reset_def alternatives_def split: if_splits)
next
  case (11 multi g r st)
  have "st' = st \<or>
        (\<exists>st1 \<in> set (filter (progress st) (m multi r (reset r st))). st' \<in> set (m multi (Star g r) st1))"
    using "11.prems" by (subst (asm) m.simps(11)) (auto simp: alternatives_def split: if_splits)
  then show ?case
  proof
    assume "st' = st"
    then show ?thesis by simp
  next
    assume "\<exists>st1 \<in> set (filter (progress st) (m multi r (reset r st))). st' \<in> set (m multi (Star g r) st1)"
    then obtain st1 where a: "st1 \<in> set (filter (progress st) (m multi r (reset r st)))"
      and b: "st' \<in> set (m multi (Star g r) st1)" by blast
    from a have a': "st1 \<in> set (m multi r (reset r st))" by simp
    from "11.IH"(1)[OF a'] obtain u where u: "rest st = u @ rest st1" by (auto simp: reset_def)
    from "11.IH"(2)[OF a b] obtain v where "rest st1 = v @ rest st'" by blast
    with u show ?thesis by simp
  qed
qed (auto dest: one_suffix split: if_splits)

subsection \<open>Executing a compiled expression\<close>

text \<open>A \<open>RegExp\<close> object: the parsed pattern, the number of its capture groups, and
  the two flags.\<close>

record regexp =
  ast :: regex
  ngroups :: nat
  global :: bool
  multiline :: bool

text \<open>One match: the input skipped before it, its text, its captures, and the input
  after it with the character before that point.\<close>

record mresult =
  m_before :: string
  m_text :: string
  m_caps :: "string option list"
  m_prev :: "char option"
  m_after :: string

definition attempt :: "regexp \<Rightarrow> char option \<Rightarrow> string \<Rightarrow> mresult option" where
  "attempt re p s =
     (case m (multiline re) (ast re) \<lparr>prev = p, rest = s, caps = replicate (Suc (ngroups re)) None\<rparr> of
        [] \<Rightarrow> None
      | e # es \<Rightarrow> Some \<lparr>m_before = [], m_text = take (length s - length (rest e)) s,
                         m_caps = caps e, m_prev = prev e, m_after = rest e\<rparr>)"

text \<open>The leftmost match at or after the current position.\<close>

fun search :: "regexp \<Rightarrow> char option \<Rightarrow> string \<Rightarrow> mresult option" where
  "search re p [] = attempt re p []"
| "search re p (c # cs) =
     (case attempt re p (c # cs) of
        Some r \<Rightarrow> Some r
      | None \<Rightarrow> (case search re (Some c) cs of
                   None \<Rightarrow> None
                 | Some r \<Rightarrow> Some (r\<lparr>m_before := c # m_before r\<rparr>)))"

lemma attempt_split:
  assumes "attempt re p s = Some r"
  shows "s = m_before r @ m_text r @ m_after r"
proof -
  let ?st = "\<lparr>prev = p, rest = s, caps = replicate (Suc (ngroups re)) None\<rparr>"
  from assms obtain e es where e: "m (multiline re) (ast re) ?st = e # es"
    by (auto simp: attempt_def split: list.splits)
  then have "e \<in> set (m (multiline re) (ast re) ?st)"
    by simp
  from m_suffix[OF this] obtain u where "s = u @ rest e" by auto
  with assms e show ?thesis by (auto simp: attempt_def)
qed

lemma search_split:
  "search re p s = Some r \<Longrightarrow> s = m_before r @ m_text r @ m_after r"
proof (induction s arbitrary: p r)
  case Nil
  then show ?case by (auto dest: attempt_split)
next
  case (Cons c cs)
  then show ?case
    by (cases "attempt re p (c # cs)") (auto dest: attempt_split split: option.splits)
qed

lemma search_length:
  assumes "search re p s = Some r"
  shows "length s = length (m_before r) + length (m_text r) + length (m_after r)"
proof -
  have "length s = length (m_before r @ m_text r @ m_after r)"
    using search_split[OF assms] by simp
  then show ?thesis by simp
qed

lemma search_after_less:
  "search re p s = Some r \<Longrightarrow> m_text r \<noteq> [] \<Longrightarrow> length (m_after r) < length s"
  by (drule search_length) (cases "m_text r", simp_all)

lemma search_after_Cons:
  "search re p s = Some r \<Longrightarrow> m_after r = c # cs \<Longrightarrow> length cs < length s"
  by (drule search_length) simp

subsection \<open>The string methods\<close>

text \<open>\<open>s.match(re)\<close> for a global \<open>re\<close>: the text of every match, from left to right
  (the empty list stands for the \<open>null\<close> that the program replaces by \<open>[]\<close>). After a
  match the search resumes where the match ended, and one character further on when the
  match was empty.\<close>

function match_all :: "regexp \<Rightarrow> char option \<Rightarrow> string \<Rightarrow> string list" where
  "match_all re p s =
     (case search re p s of
        None \<Rightarrow> []
      | Some r \<Rightarrow>
          if m_text r = [] then
            (case m_after r of
               [] \<Rightarrow> [m_text r]
             | c # cs \<Rightarrow> m_text r # match_all re (Some c) cs)
          else m_text r # match_all re (m_prev r) (m_after r))"
  by pat_completeness auto
termination
  by (relation "measure (\<lambda>(re, p, s). length s)")
     (auto dest: search_after_less search_after_Cons)

declare match_all.simps [simp del]

text \<open>\<open>s.match(re)\<close> for a \<open>re\<close> that is not global: \<open>None\<close> is \<open>null\<close>; otherwise the
  array of the matched text followed by one entry for each capture group.\<close>

definition match_first :: "regexp \<Rightarrow> string \<Rightarrow> string option list option" where
  "match_first re s =
     (case search re None s of
        None \<Rightarrow> None
      | Some r \<Rightarrow> Some (Some (m_text r) # tl (m_caps r)))"

text \<open>\<open>re.test(s)\<close> for a \<open>re\<close> that is not global.\<close>

definition test :: "regexp \<Rightarrow> string \<Rightarrow> bool" where
  "test re s = (search re None s \<noteq> None)"

definition digit_val :: "char \<Rightarrow> nat" where
  "digit_val c = code c - 48"

text \<open>An undefined capture is replaced by the empty string.\<close>

definition capture_text :: "string option list \<Rightarrow> nat \<Rightarrow> string" where
  "capture_text cs k =
     (if k < length cs then (case cs ! k of None \<Rightarrow> [] | Some t \<Rightarrow> t) else [])"

text \<open>
  The replacement text for one match (GetSubstitution). \<open>n\<close> is the number of capture
  groups, \<open>pre\<close> the whole input before the match, \<open>mt\<close> the match and \<open>post\<close> the
  whole input after it. In the replacement string \<open>$$\<close> is a dollar sign, \<open>$&\<close> the
  match, \<open>$`\<close> the input before it, \<open>$'\<close> the input after it, and \<open>$1\<close> to \<open>$99\<close>
  a capture when the pattern has that many groups; any other \<open>$\<close> stands for itself.
\<close>

fun expand :: "nat \<Rightarrow> string option list \<Rightarrow> string \<Rightarrow> string \<Rightarrow> string \<Rightarrow> string \<Rightarrow> string" where
  "expand n cs pre mt post [] = []"
| "expand n cs pre mt post [c] = [c]"
| "expand n cs pre mt post (c # d # t) =
     (if c \<noteq> CHR ''$'' then c # expand n cs pre mt post (d # t)
      else if d = CHR ''$'' then CHR ''$'' # expand n cs pre mt post t
      else if d = CHR ''&'' then mt @ expand n cs pre mt post t
      else if d = CHR 0x60 then pre @ expand n cs pre mt post t
      else if d = CHR 0x27 then post @ expand n cs pre mt post t
      else if is_digit d then
        (case t of
           e # u \<Rightarrow>
             if is_digit e \<and> 1 \<le> 10 * digit_val d + digit_val e \<and> 10 * digit_val d + digit_val e \<le> n
             then capture_text cs (10 * digit_val d + digit_val e) @ expand n cs pre mt post u
             else if 1 \<le> digit_val d \<and> digit_val d \<le> n
             then capture_text cs (digit_val d) @ expand n cs pre mt post t
             else c # expand n cs pre mt post (d # t)
         | [] \<Rightarrow>
             if 1 \<le> digit_val d \<and> digit_val d \<le> n
             then capture_text cs (digit_val d) @ expand n cs pre mt post t
             else c # expand n cs pre mt post (d # t))
      else c # expand n cs pre mt post (d # t))"

definition substitution :: "regexp \<Rightarrow> string \<Rightarrow> mresult \<Rightarrow> string \<Rightarrow> string" where
  "substitution re pre r repl =
     expand (ngroups re) (m_caps r) (pre @ m_before r) (m_text r) (m_after r) repl"

function replace_from :: "regexp \<Rightarrow> string \<Rightarrow> string \<Rightarrow> char option \<Rightarrow> string \<Rightarrow> string" where
  "replace_from re repl pre p s =
     (case search re p s of
        None \<Rightarrow> s
      | Some r \<Rightarrow>
          if m_text r = [] then
            (case m_after r of
               [] \<Rightarrow> m_before r @ substitution re pre r repl
             | c # cs \<Rightarrow> m_before r @ substitution re pre r repl @
                 c # replace_from re repl (pre @ m_before r @ [c]) (Some c) cs)
          else m_before r @ substitution re pre r repl @
                 replace_from re repl (pre @ m_before r @ m_text r) (m_prev r) (m_after r))"
  by pat_completeness auto
termination
  by (relation "measure (\<lambda>(re, repl, pre, p, s). length s)")
     (auto dest: search_after_less search_after_Cons)

declare replace_from.simps [simp del]

text \<open>\<open>s.replace(re, repl)\<close> with a string \<open>repl\<close>: every match is replaced when \<open>re\<close>
  is global, the first match otherwise.\<close>

definition replace :: "string \<Rightarrow> regexp \<Rightarrow> string \<Rightarrow> string" where
  "replace s re repl =
     (if global re then replace_from re repl [] None s
      else (case search re None s of
              None \<Rightarrow> s
            | Some r \<Rightarrow> m_before r @ substitution re [] r repl @ m_after r))"

subsection \<open>Compiling a pattern\<close>

text \<open>
  What the program can throw or report. \<open>SyntaxError\<close> is thrown by \<open>new RegExp\<close> on
  a pattern that is not well formed, \<open>TypeError\<close> by reading a property of \<open>null\<close> or
  \<open>undefined\<close>, and \<open>MissingSql\<close> is the error \<open>MISSING SQL\<close> that the first stage
  passes to its callback. \<open>Unsupported\<close> does not exist in the program: it marks a
  pattern outside the modelled fragment (a quantifier in braces, a look-around, a
  named group, an escaped digit, and the escapes \<open>\c\<close>, \<open>\x\<close> and \<open>\u\<close>), about which
  this theory says nothing.
\<close>

datatype error = SyntaxError | Unsupported | TypeError | MissingSql

text \<open>
  The parser reads the pattern from left to right. It keeps the alternatives and the
  terms of the group it is in, and the enclosing groups on a stack. \<open>f_q\<close> records
  whether the last term may take a quantifier: nothing to repeat, an atom, or a term
  that already has one (which only \<open>?\<close> may follow, making it lazy).
\<close>

datatype qstate = NoAtom | Atom | Quantified

datatype cpend = NoPend | PendChar char | PendDash char

datatype pmode =
    PNormal
  | PEscape
  | POpen
  | POpenQ
  | PClassStart
  | PClass bool "citem list" cpend
  | PClassEsc bool "citem list" cpend

record frame =
  f_group :: "nat option"
  f_alts :: "regex list"
  f_seq :: "regex list"
  f_q :: qstate

record pstate =
  mode :: pmode
  cur :: frame
  stack :: "frame list"
  opened :: nat

fun mk_seq :: "regex list \<Rightarrow> regex" where
  "mk_seq [] = Empty"
| "mk_seq [a] = a"
| "mk_seq (a # as) = Seq a (mk_seq as)"

fun mk_alt :: "regex list \<Rightarrow> regex" where
  "mk_alt [] = Empty"
| "mk_alt [a] = a"
| "mk_alt (a # as) = Alt a (mk_alt as)"

definition close_frame :: "frame \<Rightarrow> regex" where
  "close_frame f =
     (let body = mk_alt (rev (mk_seq (rev (f_seq f)) # f_alts f))
      in case f_group f of None \<Rightarrow> body | Some k \<Rightarrow> Group k body)"

definition push_atom :: "regex \<Rightarrow> qstate \<Rightarrow> pstate \<Rightarrow> error + pstate" where
  "push_atom a q ps =
     Inr (ps\<lparr>mode := PNormal, cur := (cur ps)\<lparr>f_seq := a # f_seq (cur ps), f_q := q\<rparr>\<rparr>)"

text \<open>\<open>r+\<close> is one round of \<open>r\<close> followed by \<open>r*\<close>.\<close>

definition some :: "regex \<Rightarrow> regex" where
  "some r = Seq r (Star True r)"

definition quantify :: "char \<Rightarrow> regex \<Rightarrow> regex" where
  "quantify c a =
     (if c = CHR ''*'' then Star True a
      else if c = CHR ''+'' then some a
      else Opt True a)"

fun lazy :: "regex \<Rightarrow> regex" where
  "lazy (Star g a) = Star False a"
| "lazy (Opt g a) = Opt False a"
| "lazy (Seq a (Star g b)) = Seq a (Star False b)"
| "lazy r = r"

definition quantifier :: "char \<Rightarrow> pstate \<Rightarrow> error + pstate" where
  "quantifier c ps =
     (case f_seq (cur ps) of
        [] \<Rightarrow> Inl SyntaxError
      | a # as \<Rightarrow>
          (case f_q (cur ps) of
             NoAtom \<Rightarrow> Inl SyntaxError
           | Atom \<Rightarrow> Inr (ps\<lparr>cur := (cur ps)\<lparr>f_seq := quantify c a # as, f_q := Quantified\<rparr>\<rparr>)
           | Quantified \<Rightarrow>
               if c = CHR ''?''
               then Inr (ps\<lparr>cur := (cur ps)\<lparr>f_seq := lazy a # as, f_q := NoAtom\<rparr>\<rparr>)
               else Inl SyntaxError))"

definition is_class_escape :: "char \<Rightarrow> bool" where
  "is_class_escape c = (c \<in> set ''dDwWsS'')"

definition class_escape :: "char \<Rightarrow> cclass \<times> bool" where
  "class_escape c =
     (if c = CHR ''d'' then (Digit, False) else if c = CHR ''D'' then (Digit, True)
      else if c = CHR ''w'' then (Word, False) else if c = CHR ''W'' then (Word, True)
      else if c = CHR ''s'' then (Space, False) else (Space, True))"

definition control_escape :: "char \<Rightarrow> char option" where
  "control_escape c =
     (if c = CHR ''n'' then Some (CHR 0x0A) else if c = CHR ''r'' then Some (CHR 0x0D)
      else if c = CHR ''t'' then Some (CHR 0x09) else if c = CHR ''f'' then Some (CHR 0x0C)
      else if c = CHR ''v'' then Some (CHR 0x0B) else None)"

text \<open>The escapes whose meaning depends on the characters after them: a digit (a back
  reference or an octal code), \<open>c\<close>, \<open>x\<close> and \<open>u\<close>. Any other character without a meaning
  of its own stands for itself after a backslash.\<close>

definition coded_escape :: "char \<Rightarrow> bool" where
  "coded_escape c = (is_digit c \<or> c = CHR ''c'' \<or> c = CHR ''x'' \<or> c = CHR ''u'')"

text \<open>The character after a backslash, outside a class.\<close>

definition escape :: "char \<Rightarrow> pstate \<Rightarrow> error + pstate" where
  "escape c ps =
     (if is_class_escape c then
        (case class_escape c of (k, neg) \<Rightarrow> push_atom (Class neg [CCls k]) Atom ps)
      else case control_escape c of
        Some x \<Rightarrow> push_atom (Lit x) Atom ps
      | None \<Rightarrow>
          if c = CHR ''b'' then push_atom (WordB False) NoAtom ps
          else if c = CHR ''B'' then push_atom (WordB True) NoAtom ps
          else if coded_escape c then Inl Unsupported
          else push_atom (Lit c) Atom ps)"

text \<open>Inside a class, \<open>pend\<close> is a character that may still become the lower end of a
  range.\<close>

definition flush :: "citem list \<Rightarrow> cpend \<Rightarrow> citem list" where
  "flush items pend =
     (case pend of
        NoPend \<Rightarrow> items
      | PendChar a \<Rightarrow> items @ [CChar a]
      | PendDash a \<Rightarrow> items @ [CChar a, CChar (CHR ''-'')])"

definition class_char :: "bool \<Rightarrow> citem list \<Rightarrow> cpend \<Rightarrow> char \<Rightarrow> pstate \<Rightarrow> error + pstate" where
  "class_char neg items pend c ps =
     (case pend of
        NoPend \<Rightarrow> Inr (ps\<lparr>mode := PClass neg items (PendChar c)\<rparr>)
      | PendChar a \<Rightarrow> Inr (ps\<lparr>mode := PClass neg (items @ [CChar a]) (PendChar c)\<rparr>)
      | PendDash a \<Rightarrow>
          if code a \<le> code c then Inr (ps\<lparr>mode := PClass neg (items @ [CRange a c]) NoPend\<rparr>)
          else Inl SyntaxError)"

definition class_step :: "bool \<Rightarrow> citem list \<Rightarrow> cpend \<Rightarrow> char \<Rightarrow> pstate \<Rightarrow> error + pstate" where
  "class_step neg items pend c ps =
     (if c = CHR '']'' then push_atom (Class neg (flush items pend)) Atom ps
      else if c = CHR 0x5C then Inr (ps\<lparr>mode := PClassEsc neg items pend\<rparr>)
      else if c = CHR ''-'' then
        (case pend of
           PendChar a \<Rightarrow> Inr (ps\<lparr>mode := PClass neg items (PendDash a)\<rparr>)
         | _ \<Rightarrow> class_char neg items pend c ps)
      else class_char neg items pend c ps)"

definition class_esc_step :: "bool \<Rightarrow> citem list \<Rightarrow> cpend \<Rightarrow> char \<Rightarrow> pstate \<Rightarrow> error + pstate" where
  "class_esc_step neg items pend c ps =
     (if is_class_escape c then
        (case pend of
           PendDash a \<Rightarrow> Inl Unsupported
         | _ \<Rightarrow>
            (case class_escape c of
               (k, n) \<Rightarrow>
                 Inr (ps\<lparr>mode := PClass neg (flush items pend @ [if n then CNotCls k else CCls k]) NoPend\<rparr>)))
      else case control_escape c of
        Some x \<Rightarrow> class_char neg items pend x ps
      | None \<Rightarrow>
          if c = CHR ''b'' then class_char neg items pend (CHR 0x08) ps
          else if coded_escape c then Inl Unsupported
          else class_char neg items pend c ps)"

text \<open>Whether the text after a brace makes it a quantifier: digits and a closing
  brace, with or without a comma and more digits between them.\<close>

definition braced_quantifier :: "string \<Rightarrow> bool" where
  "braced_quantifier cs =
     (takeWhile is_digit cs \<noteq> [] \<and>
      (case dropWhile is_digit cs of
         [] \<Rightarrow> False
       | x # xs \<Rightarrow>
           if x = CHR ''}'' then True
           else if x = CHR '','' then
             (case dropWhile is_digit xs of [] \<Rightarrow> False | y # ys \<Rightarrow> y = CHR ''}'')
           else False))"

text \<open>A character \<open>c\<close> outside a class and not after a backslash; \<open>cs\<close> is the
  pattern after it. A group is numbered when its parenthesis opens.\<close>

definition normal_step :: "char \<Rightarrow> string \<Rightarrow> pstate \<Rightarrow> error + pstate" where
  "normal_step c cs ps =
     (if c = CHR ''('' then
        Inr (ps\<lparr>mode := POpen, opened := Suc (opened ps), stack := cur ps # stack ps,
                 cur := \<lparr>f_group = Some (Suc (opened ps)), f_alts = [], f_seq = [], f_q = NoAtom\<rparr>\<rparr>)
      else if c = CHR '')'' then
        (case stack ps of
           [] \<Rightarrow> Inl SyntaxError
         | f # fs \<Rightarrow> push_atom (close_frame (cur ps)) Atom (ps\<lparr>cur := f, stack := fs\<rparr>))
      else if c = CHR ''|'' then
        Inr (ps\<lparr>mode := PNormal,
                 cur := (cur ps)\<lparr>f_alts := mk_seq (rev (f_seq (cur ps))) # f_alts (cur ps),
                                   f_seq := [], f_q := NoAtom\<rparr>\<rparr>)
      else if c = CHR ''*'' \<or> c = CHR ''+'' \<or> c = CHR ''?'' then quantifier c (ps\<lparr>mode := PNormal\<rparr>)
      else if c = CHR ''{'' \<and> braced_quantifier cs then Inl Unsupported
      else if c = CHR ''['' then Inr (ps\<lparr>mode := PClassStart\<rparr>)
      else if c = CHR 0x5C then Inr (ps\<lparr>mode := PEscape\<rparr>)
      else if c = CHR ''.'' then push_atom Dot Atom ps
      else if c = CHR ''^'' then push_atom Bol NoAtom ps
      else if c = CHR ''$'' then push_atom Eol NoAtom ps
      else push_atom (Lit c) Atom ps)"

definition pstep :: "char \<Rightarrow> string \<Rightarrow> pstate \<Rightarrow> error + pstate" where
  "pstep c cs ps =
     (case mode ps of
        PNormal \<Rightarrow> normal_step c cs ps
      | PEscape \<Rightarrow> escape c ps
      | POpen \<Rightarrow> if c = CHR ''?'' then Inr (ps\<lparr>mode := POpenQ\<rparr>) else normal_step c cs ps
      | POpenQ \<Rightarrow>
          if c = CHR '':'' then
            Inr (ps\<lparr>mode := PNormal, opened := opened ps - 1, cur := (cur ps)\<lparr>f_group := None\<rparr>\<rparr>)
          else if c = CHR ''='' \<or> c = CHR ''!'' \<or> c = CHR ''<'' then Inl Unsupported
          else Inl SyntaxError
      | PClassStart \<Rightarrow>
          if c = CHR ''^'' then Inr (ps\<lparr>mode := PClass True [] NoPend\<rparr>)
          else class_step False [] NoPend c ps
      | PClass neg items pend \<Rightarrow> class_step neg items pend c ps
      | PClassEsc neg items pend \<Rightarrow> class_esc_step neg items pend c ps)"

fun psteps :: "string \<Rightarrow> pstate \<Rightarrow> error + pstate" where
  "psteps [] ps = Inr ps"
| "psteps (c # cs) ps = (case pstep c cs ps of Inl e \<Rightarrow> Inl e | Inr ps' \<Rightarrow> psteps cs ps')"

text \<open>At the end of the pattern every group and class must be closed and no backslash
  may be left over.\<close>

definition parse :: "string \<Rightarrow> error + regex \<times> nat" where
  "parse src =
     (case psteps src \<lparr>mode = PNormal,
                        cur = \<lparr>f_group = None, f_alts = [], f_seq = [], f_q = NoAtom\<rparr>,
                        stack = [], opened = 0\<rparr> of
        Inl e \<Rightarrow> Inl e
      | Inr ps \<Rightarrow>
          if mode ps = PNormal \<and> stack ps = []
          then Inr (close_frame (cur ps), opened ps)
          else Inl SyntaxError)"

text \<open>\<open>new RegExp(src, flags)\<close>.\<close>

definition RegExp :: "string \<Rightarrow> string \<Rightarrow> error + regexp" where
  "RegExp src flags =
     (case parse src of
        Inl e \<Rightarrow> Inl e
      | Inr (r, n) \<Rightarrow>
          Inr \<lparr>ast = r, ngroups = n, global = (CHR ''g'' \<in> set flags),
               multiline = (CHR ''m'' \<in> set flags)\<rparr>)"

section \<open>The program\<close>

text \<open>
  The definitions follow \<^verbatim>\<open>bin/sqlpie.js\<close>; the second source file is the same program
  with other function names (\<open>rewriteSerializedStrings\<close>, \<open>start\<close>, \<open>finish\<close>). Console
  output is not modelled: no result depends on it.
\<close>

subsection \<open>The three regular expression literals\<close>

definition bs :: string where
  "bs = [CHR 0x5C]"

text \<open>\<open>re\<close> of \<open>findSerializedStrings\<close>, made global by \<open>new RegExp(re, 'g')\<close>.\<close>

definition scan_src :: string where
  "scan_src = ''[;{}]s:('' @ bs @ ''d+):\"([^\"]+)\";''"

definition scan_re :: regexp where
  "scan_re =
     \<lparr>ast = mk_seq
        [Class False [CChar (CHR '';''), CChar (CHR ''{''), CChar (CHR ''}'')],
         Lit (CHR ''s''), Lit (CHR '':''),
         Group 1 (some (Class False [CCls Digit])),
         Lit (CHR '':''), Lit (CHR 0x22),
         Group 2 (some (Class True [CChar (CHR 0x22)])),
         Lit (CHR 0x22), Lit (CHR '';'')],
      ngroups = 2, global = True, multiline = False\<rparr>"

text \<open>\<open>re2\<close> of \<open>findSerializedStrings\<close>.\<close>

definition parts_src :: string where
  "parts_src = ''^.s:('' @ bs @ ''d+):\"(.*)\";$''"

definition parts_re :: regexp where
  "parts_re =
     \<lparr>ast = mk_seq
        [Bol, Dot, Lit (CHR ''s''), Lit (CHR '':''),
         Group 1 (some (Class False [CCls Digit])),
         Lit (CHR '':''), Lit (CHR 0x22),
         Group 2 (Star True Dot),
         Lit (CHR 0x22), Lit (CHR '';''), Eol],
      ngroups = 2, global = False, multiline = False\<rparr>"

text \<open>The literal with which \<open>rewriteSerializedSql\<close> computes \<open>rewriteChars\<close>.\<close>

definition value_src :: string where
  "value_src = ''^.s:'' @ bs @ ''d+:\"([^\"]+)\".$''"

definition value_re :: regexp where
  "value_re =
     \<lparr>ast = mk_seq
        [Bol, Dot, Lit (CHR ''s''), Lit (CHR '':''),
         some (Class False [CCls Digit]),
         Lit (CHR '':''), Lit (CHR 0x22),
         Group 1 (some (Class True [CChar (CHR 0x22)])),
         Lit (CHR 0x22), Dot, Eol],
      ngroups = 1, global = False, multiline = False\<rparr>"

subsection \<open>Scanning\<close>

text \<open>The object that \<open>findSerializedStrings\<close> builds for one match (\<open>val\<close> is its
  property \<open>value\<close>), and the same object after \<open>rewriteSerializedSql\<close> has added the two
  rewrite properties.\<close>

record token =
  source :: string
  chars :: nat
  val :: string

record ptoken = token +
  rewriteChars :: nat
  rewriteValue :: "string option"

text \<open>\<open>parseInt\<close> on the text of \<open>(\d+)\<close>: the number is exact as long as it is below
  \<open>2^53\<close>, so for every run of at most 15 digits.\<close>

definition parseInt :: "string \<Rightarrow> nat" where
  "parseInt ds = foldl (\<lambda>n c. 10 * n + digit_val c) 0 (takeWhile is_digit ds)"

text \<open>A number turned into a string by \<open>+\<close>.\<close>

fun number_string :: "nat \<Rightarrow> string" where
  "number_string n =
     (if n < 10 then [char_of (48 + n)]
      else number_string (n div 10) @ [char_of (48 + n mod 10)])"

declare number_string.simps [simp del]

text \<open>\<open>_.map\<close> with a function that may throw: the first exception ends the loop.\<close>

fun collect :: "(error + 'a) list \<Rightarrow> error + 'a list" where
  "collect [] = Inr []"
| "collect (x # xs) =
     (case x of
        Inl e \<Rightarrow> Inl e
      | Inr a \<Rightarrow> (case collect xs of Inl e \<Rightarrow> Inl e | Inr as \<Rightarrow> Inr (a # as)))"

text \<open>The body of the \<open>_.map\<close> callback: \<open>parts\<close> is \<open>null\<close> when \<open>re2\<close> does not match,
  and \<open>parts[0]\<close> then throws.\<close>

definition decompose :: "string \<Rightarrow> error + token" where
  "decompose mt =
     (case match_first parts_re mt of
        None \<Rightarrow> Inl TypeError
      | Some parts \<Rightarrow>
          Inr \<lparr>source = capture_text parts 0,
               chars = parseInt (capture_text parts 1),
               val = capture_text parts 2\<rparr>)"

definition findSerializedStrings :: "string \<Rightarrow> error + token list" where
  "findSerializedStrings sql = collect (map decompose (match_all scan_re None sql))"

text \<open>Every call of \<open>countMatches\<close> leaves \<open>ignoreCase\<close> out, so the flags are \<open>gm\<close>.\<close>

definition countMatches :: "string \<Rightarrow> string \<Rightarrow> error + nat" where
  "countMatches fnd src =
     (case RegExp fnd ''gm'' of
        Inl e \<Rightarrow> Inl e
      | Inr re \<Rightarrow> Inr (length (match_all re None src)))"

subsection \<open>Rewriting the serialized strings\<close>

text \<open>The callback under the comment \<open>create rewrite values\<close>.\<close>

definition createRewriteValue :: "regexp \<Rightarrow> regexp \<Rightarrow> string \<Rightarrow> token \<Rightarrow> ptoken" where
  "createRewriteValue re re2 repl t =
     (if test re (source t) then
        token.extend t
          \<lparr>rewriteChars = length (replace (replace (source t) re2 repl) value_re ''$1''),
           rewriteValue = Some (replace (source t) re2 repl)\<rparr>
      else token.extend t \<lparr>rewriteChars = 0, rewriteValue = None\<rparr>)"

text \<open>A \<open>null\<close> that is concatenated to a string reads \<open>null\<close>.\<close>

definition string_of :: "string option \<Rightarrow> string" where
  "string_of v = (case v of None \<Rightarrow> ''null'' | Some s \<Rightarrow> s)"

text \<open>One replacement in the document: the two statements that the timer callback
  and the \<open>_.each\<close> callback share.\<close>

definition patch :: "string \<Rightarrow> ptoken \<Rightarrow> error + string" where
  "patch sql t =
     (case RegExp (''s:'' @ number_string (chars t) @ '':\"'' @ val t @ ''\"'') [] of
        Inl e \<Rightarrow> Inl e
      | Inr re \<Rightarrow>
          Inr (replace sql re
                 (''s:'' @ number_string (rewriteChars t) @ '':\"'' @ string_of (rewriteValue t) @ ''\"'')))"

text \<open>The branch without progress bar: \<open>_.each\<close> over the planned tokens.\<close>

fun each :: "ptoken list \<Rightarrow> string \<Rightarrow> error + string" where
  "each [] sql = Inr sql"
| "each (t # ts) sql = (case patch sql t of Inl e \<Rightarrow> Inl e | Inr sql' \<Rightarrow> each ts sql')"

text \<open>The progress bar of the \<open>progress\<close> package, as far as the program reads it: a
  tick adds one to \<open>curr\<close>, and the bar is complete once \<open>curr\<close> has reached \<open>total\<close>.\<close>

record bar =
  bar_curr :: nat
  bar_total :: nat
  bar_complete :: bool

definition tick :: "bar \<Rightarrow> bar" where
  "tick b = b\<lparr>bar_curr := bar_curr b + 1,
              bar_complete := (bar_complete b \<or> bar_total b \<le> bar_curr b + 1)\<rparr>"

text \<open>The branch with progress bar: the callback of \<open>setInterval\<close> runs until it calls
  \<open>clearInterval\<close> or throws. \<open>strings[idx]\<close> is \<open>undefined\<close> from \<open>strings.length\<close> on,
  and reading \<open>chars\<close> of it throws.\<close>

function timer :: "ptoken list \<Rightarrow> nat \<Rightarrow> bar \<Rightarrow> string \<Rightarrow> error + string" where
  "timer strings idx b sql =
     (if idx < length strings then
        (case patch sql (strings ! idx) of
           Inl e \<Rightarrow> Inl e
         | Inr sql' \<Rightarrow>
             if bar_complete (tick b) then Inr sql'
             else timer strings (Suc idx) (tick b) sql')
      else Inl TypeError)"
  by pat_completeness auto
termination
  by (relation "measure (\<lambda>(strings, idx, b, sql). length strings - idx)") auto

declare timer.simps [simp del]

text \<open>\<open>rewriteSerializedSql\<close> from the point where it has the scanned tokens. The
  result is the document passed to \<open>callback\<close>; \<open>Inl\<close> is an exception.\<close>

definition rewriteTokens :: "bool \<Rightarrow> string \<Rightarrow> string \<Rightarrow> string \<Rightarrow> token list \<Rightarrow> error + string" where
  "rewriteTokens verbose sql fnd repl found =
     (case RegExp fnd [] of
        Inl e \<Rightarrow> Inl e
      | Inr re \<Rightarrow>
     (case RegExp fnd ''g'' of
        Inl e \<Rightarrow> Inl e
      | Inr re2 \<Rightarrow>
          (let planned = map (createRewriteValue re re2 repl) found;
               replaceCount = length (filter (\<lambda>t. rewriteValue t \<noteq> None) planned);
               strings = filter (\<lambda>t. rewriteChars t \<noteq> 0) planned
           in if replaceCount = 0 then Inr sql
              else if verbose then
                timer strings 0 \<lparr>bar_curr = 0, bar_total = replaceCount, bar_complete = False\<rparr> sql
              else each strings sql)))"

definition rewriteSerializedSql :: "bool \<Rightarrow> string \<Rightarrow> string \<Rightarrow> string \<Rightarrow> error + string" where
  "rewriteSerializedSql verbose sql fnd repl =
     (case findSerializedStrings sql of
        Inl e \<Rightarrow> Inl e
      | Inr found \<Rightarrow> rewriteTokens verbose sql fnd repl found)"

subsection \<open>The pipeline\<close>

text \<open>What a path names: nothing, something that is not a regular file, a regular file
  that cannot be read, or a regular file with its contents. \<open>readFile\<close> catches every
  exception and returns the empty string then.\<close>

datatype entry = Absent | NotRegular | Unreadable | Regular string

type_synonym filesystem = "string \<Rightarrow> entry"

definition readFile :: "filesystem \<Rightarrow> string \<Rightarrow> string" where
  "readFile fs path =
     (case fs path of
        Regular contents \<Rightarrow> contents
      | _ \<Rightarrow> [])"

text \<open>The files written so far, oldest first.\<close>

definition writeFile :: "string \<Rightarrow> string \<Rightarrow> (string \<times> string) list \<Rightarrow> (string \<times> string) list" where
  "writeFile path contents w = w @ [(path, contents)]"

record options =
  opt_input :: string
  opt_output :: string
  opt_find :: string
  opt_replace :: string

record data =
  d_sql :: string
  d_input :: string
  d_output :: string
  d_find :: string
  d_replace :: string
  d_count :: nat

text \<open>How a stage ends: it throws, it calls back with an error, or it calls back with
  the data.\<close>

datatype 'a outcome = Thrown error | Failed error | Passed 'a

definition initialize :: "options \<Rightarrow> filesystem \<Rightarrow> data outcome" where
  "initialize opts fs =
     (let sql = readFile fs (opt_input opts)
      in if sql = [] then Failed MissingSql
         else (case countMatches (opt_find opts) sql of
                 Inl e \<Rightarrow> Thrown e
               | Inr n \<Rightarrow>
                   Passed \<lparr>d_sql = sql, d_input = opt_input opts, d_output = opt_output opts,
                           d_find = opt_find opts, d_replace = opt_replace opts, d_count = n\<rparr>))"

definition reserialize :: "bool \<Rightarrow> data \<Rightarrow> data outcome" where
  "reserialize verbose d =
     (case countMatches (d_find d) (d_sql d) of
        Inl e \<Rightarrow> Thrown e
      | Inr n \<Rightarrow>
          if n = 0 then Passed d
          else (case rewriteSerializedSql verbose (d_sql d) (d_find d) (d_replace d) of
                  Inl e \<Rightarrow> Thrown e
                | Inr sql \<Rightarrow> Passed (d\<lparr>d_sql := sql\<rparr>)))"

definition rewrite :: "data \<Rightarrow> data outcome" where
  "rewrite d =
     (case countMatches (d_find d) (d_sql d) of
        Inl e \<Rightarrow> Thrown e
      | Inr n \<Rightarrow>
          if n = 0 then Passed d
          else (case RegExp (d_find d) ''gm'' of
                  Inl e \<Rightarrow> Thrown e
                | Inr re \<Rightarrow> Passed (d\<lparr>d_sql := replace (d_sql d) re (d_replace d)\<rparr>)))"

text \<open>What a run leaves behind: the exit code and the files written.\<close>

record process =
  exit_code :: nat
  written :: "(string \<times> string) list"

text \<open>An exception that nothing catches ends the process with code 1; nothing has
  been written by then, since only \<open>complete\<close> writes.\<close>

definition uncaught :: "error \<Rightarrow> process" where
  "uncaught e = \<lparr>exit_code = 1, written = []\<rparr>"

text \<open>\<open>complete(err, data)\<close>: with an error it exits with code 1 before it writes;
  \<open>data\<close> is \<open>undefined\<close> then.\<close>

definition complete :: "error option \<Rightarrow> data option \<Rightarrow> process" where
  "complete err data =
     (case err of
        Some e \<Rightarrow> \<lparr>exit_code = 1, written = []\<rparr>
      | None \<Rightarrow>
          (case data of
             None \<Rightarrow> uncaught TypeError
           | Some d \<Rightarrow> \<lparr>exit_code = 0, written = writeFile (d_output d) (d_sql d) []\<rparr>))"

text \<open>\<open>async.waterfall\<close>: each task receives what the task before it passed on; the
  first error ends the sequence, and no later task is called.\<close>

fun waterfall :: "'a outcome \<Rightarrow> ('a \<Rightarrow> 'a outcome) list \<Rightarrow> 'a outcome" where
  "waterfall (Passed x) (t # ts) = waterfall (t x) ts"
| "waterfall r ts = r"

definition pipeline :: "bool \<Rightarrow> options \<Rightarrow> filesystem \<Rightarrow> process" where
  "pipeline verbose opts fs =
     (case waterfall (initialize opts fs) [reserialize verbose, rewrite] of
        Thrown e \<Rightarrow> uncaught e
      | Failed e \<Rightarrow> complete (Some e) None
      | Passed d \<Rightarrow> complete None (Some d))"

text \<open>The command line: the program prints its help and does nothing else unless all
  four of input, output, find and replace are given and none of them is empty.\<close>

record argv =
  arg_input :: "string option"
  arg_output :: "string option"
  arg_find :: "string option"
  arg_replace :: "string option"
  arg_verbose :: bool

definition compact :: "string option list \<Rightarrow> string list" where
  "compact vs = concat (map (\<lambda>v. case v of None \<Rightarrow> [] | Some s \<Rightarrow> if s = [] then [] else [s]) vs)"

definition main :: "argv \<Rightarrow> filesystem \<Rightarrow> process" where
  "main args fs =
     (case compact [arg_input args, arg_output args, arg_find args, arg_replace args] of
        [i, out, f, r] \<Rightarrow>
          pipeline (arg_verbose args)
            \<lparr>opt_input = i, opt_output = out, opt_find = f, opt_replace = r\<rparr> fs
      | _ \<Rightarrow> \<lparr>exit_code = 0, written = []\<rparr>)"

text \<open>A command line, and a file system that holds one regular file.\<close>

definition cli :: "string \<Rightarrow> string \<Rightarrow> string \<Rightarrow> string \<Rightarrow> bool \<Rightarrow> argv" where
  "cli i out f r v =
     \<lparr>arg_input = Some i, arg_output = Some out, arg_find = Some f, arg_replace = Some r,
      arg_verbose = v\<rparr>"

definition single_file :: "string \<Rightarrow> string \<Rightarrow> filesystem" where
  "single_file path contents p = (if p = path then Regular contents else Absent)"

section \<open>Notions for the statements\<close>

text \<open>The text of a serialized string after its leading delimiter, for the digits
  \<open>ds\<close> of its length prefix and its value \<open>v\<close>.\<close>

definition body :: "string \<Rightarrow> string \<Rightarrow> string" where
  "body ds v = ''s:'' @ ds @ '':\"'' @ v @ ''\";''"

definition delimiter :: "char \<Rightarrow> bool" where
  "delimiter d = (d = CHR '';'' \<or> d = CHR ''{'' \<or> d = CHR ''}'')"

definition quote_free :: "string \<Rightarrow> bool" where
  "quote_free v = list_all (\<lambda>c. c \<noteq> CHR 0x22) v"

definition single_line :: "string \<Rightarrow> bool" where
  "single_line v = list_all (\<lambda>c. \<not> line_terminator c) v"

text \<open>The parts of a match of the scanning pattern, read off its text: the digits
  after the delimiter and \<open>s:\<close>, and the text between the two quotes. \<open>token_of\<close> is the
  token that the specification describes for a match.\<close>

definition digits_of :: "string \<Rightarrow> string" where
  "digits_of mt = takeWhile is_digit (drop 3 mt)"

definition quoted :: "string \<Rightarrow> string" where
  "quoted mt = takeWhile (\<lambda>c. c \<noteq> CHR 0x22) (drop 1 (dropWhile (\<lambda>c. c \<noteq> CHR 0x22) mt))"

definition token_of :: "string \<Rightarrow> token" where
  "token_of mt = \<lparr>source = mt, chars = parseInt (digits_of mt), val = quoted mt\<rparr>"

text \<open>The texts that a pattern can read, apart from what \<open>^\<close> and \<open>$\<close> ask of the
  surroundings.\<close>

inductive_set star :: "string set \<Rightarrow> string set" for A :: "string set" where
  star_empty: "[] \<in> star A"
| star_round: "u \<in> A \<Longrightarrow> v \<in> star A \<Longrightarrow> u @ v \<in> star A"

fun lang :: "regex \<Rightarrow> string set" where
  "lang Empty = {[]}"
| "lang (Lit c) = {[c]}"
| "lang Dot = {[c] |c. \<not> line_terminator c}"
| "lang (Class neg items) = {[c] |c. in_class neg items c}"
| "lang Bol = {[]}"
| "lang Eol = {[]}"
| "lang (Seq a b) = {u @ v |u v. u \<in> lang a \<and> v \<in> lang b}"
| "lang (Alt a b) = lang a \<union> lang b"
| "lang (Group k r) = lang r"
| "lang (Opt g r) = insert [] (lang r)"
| "lang (Star g r) = star (lang r)"
| "lang (WordB neg) = {[]}"

text \<open>\<open>accepts multi r w\<close>: at every state with input \<open>w\<close>, \<open>r\<close> has a match.\<close>

definition accepts :: "bool \<Rightarrow> regex \<Rightarrow> string \<Rightarrow> bool" where
  "accepts multi r w = (\<forall>st. rest st = w \<longrightarrow> m multi r st \<noteq> [])"

definition apostrophe :: string where
  "apostrophe = [CHR 0x27]"

section \<open>The literals are the patterns of the source\<close>

lemma scan_re_parse: "parse scan_src = Inr (ast scan_re, ngroups scan_re)"
  by code_simp

lemma parts_re_parse: "parse parts_src = Inr (ast parts_re, ngroups parts_re)"
  by code_simp

lemma value_re_parse: "parse value_src = Inr (ast value_re, ngroups value_re)"
  by code_simp

section \<open>Documents without a match\<close>





section \<open>Missing input, and how often the output is written\<close>

lemma pipeline_cases:
  "written (pipeline v opts fs) = [] \<or>
   (\<exists>d0 d1 d2. initialize opts fs = Passed d0 \<and> reserialize v d0 = Passed d1 \<and> rewrite d1 = Passed d2
      \<and> pipeline v opts fs = \<lparr>exit_code = 0, written = [(d_output d2, d_sql d2)]\<rparr>)"
proof (cases "initialize opts fs")
  case (Passed d0)
  show ?thesis
  proof (cases "reserialize v d0")
    case p1: (Passed d1)
    show ?thesis
    proof (cases "rewrite d1")
      case p2: (Passed d2)
      have "pipeline v opts fs = \<lparr>exit_code = 0, written = [(d_output d2, d_sql d2)]\<rparr>"
        by (simp add: pipeline_def Passed p1 p2 complete_def writeFile_def)
      with Passed p1 p2 show ?thesis by blast
    qed (simp_all add: pipeline_def Passed p1 uncaught_def complete_def)
  qed (simp_all add: pipeline_def Passed uncaught_def complete_def)
qed (simp_all add: pipeline_def uncaught_def complete_def)

lemma main_cases:
  "main args fs = \<lparr>exit_code = 0, written = []\<rparr>
   \<or> (\<exists>opts. main args fs = pipeline (arg_verbose args) opts fs)"
  by (auto simp: main_def split: list.splits)

lemma written_once: "length (written (main args fs)) \<le> 1"
proof -
  from main_cases[of args fs] show ?thesis
  proof
    assume "main args fs = \<lparr>exit_code = 0, written = []\<rparr>"
    then show ?thesis by simp
  next
    assume "\<exists>opts. main args fs = pipeline (arg_verbose args) opts fs"
    then obtain opts where o: "main args fs = pipeline (arg_verbose args) opts fs" by blast
    from pipeline_cases[of "arg_verbose args" opts fs] show ?thesis
      by (auto simp: o)
  qed
qed

lemma readFile_empty:
  "fs p = Absent \<or> fs p = NotRegular \<or> fs p = Unreadable \<or> fs p = Regular [] \<Longrightarrow>
   readFile fs p = []"
  by (auto simp: readFile_def)

text \<open>
  Claim C8. When the input path names nothing, or something that is not a regular file,
  or a file that cannot be read or is empty, the first stage reports \<open>MISSING SQL\<close>, the
  waterfall ends there whatever stages follow, and the process exits with code 1 and
  writes nothing. In every run of the pipeline the output is either not written, or all
  three stages have passed and it is written once, with the document of the last stage;
  and no run of the program writes more than once.
\<close>

theorem missing_input_and_single_write:
  "(fs (opt_input opts) = Absent \<or> fs (opt_input opts) = NotRegular
      \<or> fs (opt_input opts) = Unreadable \<or> fs (opt_input opts) = Regular [] \<longrightarrow>
        initialize opts fs = Failed MissingSql
      \<and> waterfall (initialize opts fs) stages = Failed MissingSql
      \<and> pipeline v opts fs = \<lparr>exit_code = 1, written = []\<rparr>)
   \<and> (written (pipeline v opts fs) = [] \<or>
        (\<exists>d0 d1 d2. initialize opts fs = Passed d0 \<and> reserialize v d0 = Passed d1
            \<and> rewrite d1 = Passed d2
            \<and> pipeline v opts fs = \<lparr>exit_code = 0, written = [(d_output d2, d_sql d2)]\<rparr>))
   \<and> length (written (main args fs)) \<le> 1"
proof (intro conjI impI)
  assume "fs (opt_input opts) = Absent \<or> fs (opt_input opts) = NotRegular
      \<or> fs (opt_input opts) = Unreadable \<or> fs (opt_input opts) = Regular []"
  then have "readFile fs (opt_input opts) = []" by (rule readFile_empty)
  then show i: "initialize opts fs = Failed MissingSql" by (simp add: initialize_def)
  then show "waterfall (initialize opts fs) stages = Failed MissingSql" by simp
  from i show "pipeline v opts fs = \<lparr>exit_code = 1, written = []\<rparr>"
    by (simp add: pipeline_def complete_def)
qed (rule pipeline_cases, rule written_once)

theorem missing_input_and_single_write_witness: \<open>
   single_file ''other.sql'' ''x'' ''in.sql'' = Absent
 \<and> pipeline True
      \<lparr>opt_input = ''in.sql'', opt_output = ''out.sql'', opt_find = ''hello'', opt_replace = ''hi''\<rparr>
      (single_file ''other.sql'' ''x'')
     = \<lparr>exit_code = 1, written = []\<rparr>\<close>
proof -
  have h: "single_file ''other.sql'' ''x'' ''in.sql'' = Absent" by (simp add: single_file_def)
  show ?thesis
    using h missing_input_and_single_write[where fs = "single_file ''other.sql'' ''x''" and v = True
        and opts = "\<lparr>opt_input = ''in.sql'', opt_output = ''out.sql'', opt_find = ''hello'',
                       opt_replace = ''hi''\<rparr>"]
    by simp
qed

section \<open>The examples of the specification\<close>

text \<open>
  Claim C2, as stated, fails: a run on the document \<open>s:5:"hello";\<close> with find
  \<open>hello\<close> and replace \<open>hi\<close> does not write \<open>s:2:"hi";\<close>.
\<close>

theorem example_hello_hi_counterexample: \<open>
  main (cli ''in.sql'' ''out.sql'' ''hello'' ''hi'' False) (single_file ''in.sql'' ''s:5:"hello";'')
    \<noteq> \<lparr>exit_code = 0, written = [(''out.sql'', ''s:2:"hi";'')]\<rparr>\<close>
  by code_simp

text \<open>
  Claim C2, amended. The token of the document \<open>s:5:"hello";\<close> has none of \<open>;\<close>,
  \<open>{\<close>, \<open>}\<close> before it, so the scanner finds no token; the run, with or without
  progress bar, writes \<open>s:5:"hi";\<close>: the plain pass has replaced the value and the
  length prefix is still 5.
\<close>

theorem example_hello_hi_output: \<open>
    findSerializedStrings ''s:5:"hello";'' = Inr []
  \<and> main (cli ''in.sql'' ''out.sql'' ''hello'' ''hi'' v) (single_file ''in.sql'' ''s:5:"hello";'')
      = \<lparr>exit_code = 0, written = [(''out.sql'', ''s:5:"hi";'')]\<rparr>\<close>
  by (cases v; code_simp)

text \<open>
  Claim C4, as stated, fails: a run on \<open>UPDATE t SET x='hello' WHERE s:5:"hello";\<close>
  with find \<open>hello\<close> and replace \<open>goodbye\<close> does not write the document in which the
  serialized occurrence reads \<open>s:7:"goodbye";\<close>.
\<close>

theorem example_update_counterexample: \<open>
  main (cli ''in.sql'' ''out.sql'' ''hello'' ''goodbye'' False)
       (single_file ''in.sql''
          (''UPDATE t SET x='' @ apostrophe @ ''hello'' @ apostrophe @ '' WHERE s:5:"hello";''))
    \<noteq> \<lparr>exit_code = 0,
        written = [(''out.sql'',
          ''UPDATE t SET x='' @ apostrophe @ ''goodbye'' @ apostrophe @ '' WHERE s:7:"goodbye";'')]\<rparr>\<close>
  by code_simp

text \<open>
  Claim C4, amended. In \<open>UPDATE t SET x='hello' WHERE s:5:"hello";\<close> the serialized
  occurrence follows a space, so the scanner finds no token; the plain pass turns
  \<open>x='hello'\<close> into \<open>x='goodbye'\<close> and the serialized occurrence into
  \<open>s:5:"goodbye";\<close>, with the length prefix still 5.
\<close>

theorem example_update_output: \<open>
    findSerializedStrings
      (''UPDATE t SET x='' @ apostrophe @ ''hello'' @ apostrophe @ '' WHERE s:5:"hello";'') = Inr []
  \<and> main (cli ''in.sql'' ''out.sql'' ''hello'' ''goodbye'' v)
       (single_file ''in.sql''
          (''UPDATE t SET x='' @ apostrophe @ ''hello'' @ apostrophe @ '' WHERE s:5:"hello";''))
      = \<lparr>exit_code = 0,
          written = [(''out.sql'',
            ''UPDATE t SET x='' @ apostrophe @ ''goodbye'' @ apostrophe @ '' WHERE s:5:"goodbye";'')]\<rparr>\<close>
  by (cases v; code_simp)

section \<open>What the scanner returns\<close>

subsection \<open>A match reads a text of the pattern\<close>

lemma one_lang: "st' \<in> set (one p st) \<Longrightarrow> \<exists>c. p c \<and> rest st = c # rest st'"
  by (cases "rest st") (auto simp: one_def split: if_splits)

lemma m_lang: "st' \<in> set (m multi r st) \<Longrightarrow> \<exists>u. rest st = u @ rest st' \<and> u \<in> lang r"
proof (induction multi r st arbitrary: st' rule: m.induct)
  case (7 multi a b st)
  then obtain st1 where a: "st1 \<in> set (m multi a st)" and b: "st' \<in> set (m multi b st1)"
    by auto
  from "7.IH"(1)[OF a] obtain u where u: "rest st = u @ rest st1" "u \<in> lang a" by blast
  from "7.IH"(2)[OF a b] obtain v where v: "rest st1 = v @ rest st'" "v \<in> lang b" by blast
  from u v have "rest st = (u @ v) @ rest st'" "u @ v \<in> lang (Seq a b)" by auto
  then show ?case by blast
next
  case (9 multi k r st)
  then show ?case by (auto simp: capture_def)
next
  case (10 multi g r st)
  then show ?case by (fastforce simp: reset_def alternatives_def split: if_splits)
next
  case (11 multi g r st)
  have "st' = st \<or>
        (\<exists>st1 \<in> set (filter (progress st) (m multi r (reset r st))). st' \<in> set (m multi (Star g r) st1))"
    using "11.prems" by (subst (asm) m.simps(11)) (auto simp: alternatives_def split: if_splits)
  then show ?case
  proof
    assume "st' = st"
    then show ?thesis by (auto intro: star_empty)
  next
    assume "\<exists>st1 \<in> set (filter (progress st) (m multi r (reset r st))). st' \<in> set (m multi (Star g r) st1)"
    then obtain st1 where a: "st1 \<in> set (filter (progress st) (m multi r (reset r st)))"
      and b: "st' \<in> set (m multi (Star g r) st1)" by blast
    from a have a': "st1 \<in> set (m multi r (reset r st))" by simp
    from "11.IH"(1)[OF a'] obtain u where u: "rest st = u @ rest st1" "u \<in> lang r"
      by (auto simp: reset_def)
    from "11.IH"(2)[OF a b] obtain v where v: "rest st1 = v @ rest st'" "v \<in> star (lang r)" by auto
    from u v have "rest st = (u @ v) @ rest st'" "u @ v \<in> lang (Star g r)"
      by (auto intro: star_round)
    then show ?thesis by blast
  qed
qed (auto dest!: one_lang split: if_splits)

lemma attempt_lang:
  assumes "attempt re p s = Some r"
  shows "m_text r \<in> lang (ast re) \<and> m_before r = [] \<and> s = m_text r @ m_after r"
proof -
  let ?st = "\<lparr>prev = p, rest = s, caps = replicate (Suc (ngroups re)) None\<rparr>"
  from assms obtain e es where e: "m (multiline re) (ast re) ?st = e # es"
    by (auto simp: attempt_def split: list.splits)
  then have "e \<in> set (m (multiline re) (ast re) ?st)"
    by simp
  from m_lang[OF this] obtain u where "s = u @ rest e" "u \<in> lang (ast re)" by auto
  with assms e show ?thesis by (auto simp: attempt_def)
qed

lemma search_lang: "search re p s = Some r \<Longrightarrow> m_text r \<in> lang (ast re)"
proof (induction s arbitrary: p r)
  case Nil
  then show ?case by (auto dest: attempt_lang)
next
  case (Cons c cs)
  then show ?case
    by (cases "attempt re p (c # cs)") (auto dest: attempt_lang split: option.splits)
qed

lemma search_attempt:
  "attempt re p s = Some r \<Longrightarrow> search re p s = Some r"
  by (cases s) auto

subsection \<open>The texts of the scanning pattern\<close>

lemma star_chars: "u \<in> star {[c] |c. P c} \<Longrightarrow> list_all P u"
  by (induction rule: star.induct) auto

lemma lang_some_class:
  "u \<in> lang (some (Class neg items)) \<Longrightarrow> u \<noteq> [] \<and> list_all (in_class neg items) u"
  by (auto simp: some_def dest: star_chars)

lemma in_class_delimiter [simp]:
  "in_class False [CChar (CHR '';''), CChar (CHR ''{''), CChar (CHR ''}'')] d = delimiter d"
  by (auto simp: in_class_def delimiter_def)

lemma in_class_digit [simp]: "in_class False [CCls Digit] = is_digit"
  by (auto simp: in_class_def fun_eq_iff)

lemma in_class_not_quote [simp]: "in_class True [CChar (CHR 0x22)] = (\<lambda>c. c \<noteq> CHR 0x22)"
  by (auto simp: in_class_def fun_eq_iff)

lemma scan_lang:
  assumes "u \<in> lang (ast scan_re)"
  shows "\<exists>d ds v. u = d # body ds v \<and> delimiter d \<and> ds \<noteq> [] \<and> list_all is_digit ds
            \<and> v \<noteq> [] \<and> quote_free v"
proof -
  from assms obtain d ds v where u: "u = [d] @ ''s'' @ '':'' @ ds @ '':'' @ [CHR 0x22] @ v @ [CHR 0x22] @ '';''"
    and d: "d \<in> {c. in_class False [CChar (CHR '';''), CChar (CHR ''{''), CChar (CHR ''}'')] c}"
    and ds: "ds \<in> lang (some (Class False [CCls Digit]))"
    and v: "v \<in> lang (some (Class True [CChar (CHR 0x22)]))"
    by (auto simp: scan_re_def)
  from lang_some_class[OF ds] lang_some_class[OF v] d u show ?thesis
    by (auto simp: body_def quote_free_def)
qed

text \<open>A run of characters with a property, followed by a character without it, is
  determined by the text it starts.\<close>

lemma run_unique:
  assumes "xs @ a # X = ys @ b # Y" "list_all P xs" "list_all P ys" "\<not> P a" "\<not> P b"
  shows "xs = ys \<and> a # X = b # Y"
proof -
  have "takeWhile P (xs @ a # X) = xs" "takeWhile P (ys @ b # Y) = ys"
    using assms(2-5) by (simp_all add: takeWhile_tail list_all_iff)
  with assms(1) have "xs = ys" by metis
  with assms(1) show ?thesis by simp
qed

subsection \<open>Inputs on which a pattern is sure to match\<close>

lemma reset_no_groups [simp]: "group_ids r = [] \<Longrightarrow> reset r st = st"
  by (simp add: reset_def)

lemma acceptsD: "accepts multi r w \<Longrightarrow> rest st = w \<Longrightarrow> m multi r st \<noteq> []"
  by (simp add: accepts_def)

lemma seq_nonempty:
  "st1 \<in> set (m multi a st) \<Longrightarrow> m multi b st1 \<noteq> [] \<Longrightarrow> m multi (Seq a b) st \<noteq> []"
  by auto

lemma accepts_Lit: "accepts multi (Lit c) (c # w)"
  by (simp add: accepts_def one_def)

lemma accepts_Eol: "accepts multi Eol []"
  by (simp add: accepts_def at_eol_def)

lemma accepts_one_Seq:
  assumes "\<And>st. m multi a st = one p st" "p c" "accepts multi r w"
  shows "accepts multi (Seq a r) (c # w)"
  unfolding accepts_def
proof (intro allI impI)
  fix st :: mstate
  assume r: "rest st = c # w"
  let ?st1 = "st\<lparr>prev := Some c, rest := w\<rparr>"
  have "?st1 \<in> set (m multi a st)" using assms(1,2) r by (simp add: one_def)
  moreover have "m multi r ?st1 \<noteq> []" using assms(3) by (simp add: accepts_def)
  ultimately show "m multi (Seq a r) st \<noteq> []" by (rule seq_nonempty)
qed

lemma accepts_Lit_Seq: "accepts multi r w \<Longrightarrow> accepts multi (Seq (Lit c) r) (c # w)"
  by (rule accepts_one_Seq[where p = "\<lambda>x. x = c"]) simp_all

lemma accepts_Dot_Seq:
  "\<not> line_terminator c \<Longrightarrow> accepts multi r w \<Longrightarrow> accepts multi (Seq Dot r) (c # w)"
  by (rule accepts_one_Seq[where p = "\<lambda>x. \<not> line_terminator x"]) simp_all

lemma accepts_Class_Seq:
  "in_class neg items c \<Longrightarrow> accepts multi r w \<Longrightarrow> accepts multi (Seq (Class neg items) r) (c # w)"
  by (rule accepts_one_Seq[where p = "in_class neg items"]) simp_all

lemma star_reaches:
  assumes a: "\<And>st. m multi a st = one p st" and g: "group_ids a = []"
  shows "list_all p u \<Longrightarrow> rest st = u @ w \<Longrightarrow> \<exists>st' \<in> set (m multi (Star True a) st). rest st' = w"
proof (induction u arbitrary: st)
  case Nil
  then show ?case by (subst m.simps(11)) (auto simp: alternatives_def)
next
  case (Cons c u)
  let ?st1 = "st\<lparr>prev := Some c, rest := u @ w\<rparr>"
  from Cons.prems have one: "m multi a st = [?st1]"
    by (simp add: a one_def)
  have p: "progress st ?st1" using Cons.prems by (simp add: progress_def)
  from Cons.prems have "list_all p u" by simp
  from Cons.IH[OF this, of ?st1] obtain st' where
    st': "st' \<in> set (m multi (Star True a) ?st1)" "rest st' = w"
    by auto
  show ?case
    by (subst m.simps(11)) (use one p st' g in \<open>auto simp: alternatives_def\<close>)
qed

lemma some_reaches:
  assumes a: "\<And>st. m multi a st = one p st" and g: "group_ids a = []"
    and u: "u \<noteq> []" "list_all p u" "rest st = u @ w"
  shows "\<exists>st' \<in> set (m multi (some a) st). rest st' = w"
proof -
  from u obtain c u' where c: "u = c # u'" by (cases u) auto
  let ?st1 = "st\<lparr>prev := Some c, rest := u' @ w\<rparr>"
  from u c have one: "m multi a st = [?st1]"
    by (simp add: a one_def)
  from u c have "list_all p u'" by simp
  from star_reaches[OF a g this, of ?st1 w] obtain st' where
    "st' \<in> set (m multi (Star True a) ?st1)" "rest st' = w"
    by auto
  with one show ?thesis by (auto simp: some_def)
qed

lemma accepts_Group_Seq:
  assumes "\<And>st. rest st = u @ w \<Longrightarrow> \<exists>st' \<in> set (m multi a st). rest st' = w" "accepts multi r w"
  shows "accepts multi (Seq (Group k a) r) (u @ w)"
  unfolding accepts_def
proof (intro allI impI)
  fix st :: mstate
  assume r: "rest st = u @ w"
  from assms(1)[OF r] obtain st' where st': "st' \<in> set (m multi a st)" "rest st' = w" by blast
  then have "capture k st st' \<in> set (m multi (Group k a) st)" by simp
  moreover have "m multi r (capture k st st') \<noteq> []"
    using assms(2) st' by (simp add: accepts_def capture_def)
  ultimately show "m multi (Seq (Group k a) r) st \<noteq> []" by (rule seq_nonempty)
qed

lemma accepts_Group:
  assumes "\<And>st. rest st = u @ w \<Longrightarrow> \<exists>st' \<in> set (m multi a st). rest st' = w"
  shows "accepts multi (Group k a) (u @ w)"
  unfolding accepts_def
proof (intro allI impI)
  fix st :: mstate
  assume r: "rest st = u @ w"
  from assms(1)[OF r] obtain st' where st': "st' \<in> set (m multi a st)" "rest st' = w" by blast
  then show "m multi (Group k a) st \<noteq> []" by auto
qed

lemma scan_accepts:
  assumes "delimiter d" "ds \<noteq> []" "list_all is_digit ds" "v \<noteq> []" "quote_free v"
  shows "accepts multi (ast scan_re) (d # body ds v @ R)"
proof -
  have v: "accepts multi (Seq (Group 2 (some (Class True [CChar (CHR 0x22)])))
                        (Seq (Lit (CHR 0x22)) (Lit (CHR '';'')))) (v @ ''\";'' @ R)"
    by (rule accepts_Group_Seq, rule some_reaches)
       (use assms in \<open>auto simp: quote_free_def intro!: accepts_Lit_Seq accepts_Lit\<close>)
  have ds: "accepts multi (Seq (Group 1 (some (Class False [CCls Digit])))
            (Seq (Lit (CHR '':'')) (Seq (Lit (CHR 0x22))
              (Seq (Group 2 (some (Class True [CChar (CHR 0x22)])))
                        (Seq (Lit (CHR 0x22)) (Lit (CHR '';''))))))) (ds @ '':\"'' @ v @ ''\";'' @ R)"
    by (rule accepts_Group_Seq, rule some_reaches)
       (use assms v in \<open>auto intro!: accepts_Lit_Seq\<close>)
  show ?thesis
    unfolding scan_re_def body_def using ds assms(1)
    by (auto intro!: accepts_Class_Seq accepts_Lit_Seq)
qed

subsection \<open>The first match in a document that starts with a token\<close>

lemma not_digit_colon [simp]: "\<not> is_digit (CHR '':'')"
  by (simp add: is_digit_def code_def)

lemma token_unique:
  assumes "d # body ds v @ R = d' # body ds' v' @ R'"
    and "list_all is_digit ds" "list_all is_digit ds'" "quote_free v" "quote_free v'"
  shows "d = d' \<and> ds = ds' \<and> v = v' \<and> R = R'"
proof -
  from assms(1) have d: "d = d'"
    and 1: "ds @ CHR '':'' # (CHR 0x22 # v @ ''\";'' @ R) = ds' @ CHR '':'' # (CHR 0x22 # v' @ ''\";'' @ R')"
    by (simp_all add: body_def)
  from run_unique[OF 1 assms(2,3)] have ds: "ds = ds'"
    and 2: "v @ CHR 0x22 # (CHR '';'' # R) = v' @ CHR 0x22 # (CHR '';'' # R')"
    by simp_all
  from run_unique[OF 2, of "\<lambda>c. c \<noteq> CHR 0x22"] assms(4,5) have "v = v'" "R = R'"
    by (simp_all add: quote_free_def)
  with d ds show ?thesis by simp
qed

lemma search_token_first:
  assumes "delimiter d" "ds \<noteq> []" "list_all is_digit ds" "v \<noteq> []" "quote_free v"
  shows "\<exists>r. search scan_re p (d # body ds v @ R) = Some r \<and> m_before r = []
             \<and> m_text r = d # body ds v \<and> m_after r = R"
proof -
  let ?s = "d # body ds v @ R"
  let ?st = "\<lparr>prev = p, rest = ?s, caps = replicate (Suc (ngroups scan_re)) None\<rparr>"
  have "m (multiline scan_re) (ast scan_re) ?st \<noteq> []"
    by (rule acceptsD[OF scan_accepts[OF assms]]) simp
  then obtain e es where "m (multiline scan_re) (ast scan_re) ?st = e # es"
    by (cases "m (multiline scan_re) (ast scan_re) ?st") auto
  then obtain r where r: "attempt scan_re p ?s = Some r"
    unfolding attempt_def by simp
  from attempt_lang[OF r] have t: "m_text r \<in> lang (ast scan_re)" and b: "m_before r = []"
    and s: "?s = m_text r @ m_after r" by simp_all
  from scan_lang[OF t] obtain d' ds' v' where
    u: "m_text r = d' # body ds' v'" "list_all is_digit ds'" "quote_free v'" by blast
  from s u(1) have "d # body ds v @ R = d' # body ds' v' @ m_after r" by simp
  from token_unique[OF this assms(3) u(2) assms(5) u(3)] u(1)
  have "m_text r = d # body ds v" "m_after r = R" by simp_all
  with b search_attempt[OF r] show ?thesis by simp
qed

subsection \<open>No match in the text of a token without its delimiter\<close>

lemma digit_not_quote: "is_digit c \<Longrightarrow> c \<noteq> CHR 0x22"
  by (auto simp: is_digit_def code_def)

lemma digit_not_delimiter: "is_digit c \<Longrightarrow> \<not> delimiter c"
  by (auto simp: is_digit_def code_def delimiter_def)

lemma quotes_body:
  "list_all is_digit ds \<Longrightarrow> quote_free v \<Longrightarrow>
   filter (\<lambda>c. c = CHR 0x22) (body ds v) = [CHR 0x22, CHR 0x22]"
proof -
  assume ds: "list_all is_digit ds" and v: "quote_free v"
  have "filter (\<lambda>c. c = CHR 0x22) ds = []"
    using ds by (auto simp: filter_empty_conv list_all_iff is_digit_def code_def)
  moreover have "filter (\<lambda>c. c = CHR 0x22) v = []"
    using v by (auto simp: filter_empty_conv list_all_iff quote_free_def)
  ultimately show ?thesis by (simp add: body_def)
qed

lemma no_token_in_body:
  assumes "list_all is_digit ds" "quote_free v"
  shows "search scan_re p (body ds v) = None"
proof (rule ccontr)
  assume "search scan_re p (body ds v) \<noteq> None"
  then obtain r where r: "search scan_re p (body ds v) = Some r" by auto
  from scan_lang[OF search_lang[OF r]] obtain d' ds' v' where
    u: "m_text r = d' # body ds' v'" "delimiter d'" "list_all is_digit ds'" "quote_free v'" by blast
  from search_split[OF r] u(1) have s: "body ds v = m_before r @ d' # body ds' v' @ m_after r"
    by simp
  let ?q = "\<lambda>c. c = CHR 0x22"
  have "filter ?q (body ds v) = filter ?q (m_before r) @ filter ?q [d'] @ filter ?q (body ds' v') @ filter ?q (m_after r)"
    by (subst s) simp
  then have "[CHR 0x22, CHR 0x22] = filter ?q (m_before r) @ filter ?q [d'] @ [CHR 0x22, CHR 0x22] @ filter ?q (m_after r)"
    unfolding quotes_body[OF assms] quotes_body[OF u(3,4)] .
  then have "length [CHR 0x22, CHR 0x22] = length (filter ?q (m_before r) @ filter ?q [d'] @ [CHR 0x22, CHR 0x22] @ filter ?q (m_after r))"
    by (rule arg_cong)
  then have "filter ?q (m_before r) = []"
    by simp
  then have nb: "\<forall>c \<in> set (m_before r). c \<noteq> CHR 0x22"
    by (simp add: filter_empty_conv)
  have nd: "d' \<noteq> CHR 0x22" using u(2) by (auto simp: delimiter_def)
  have dq: "\<And>x. x \<in> set ds \<Longrightarrow> x \<noteq> CHR 0x22"
    using assms(1) by (auto simp: list_all_iff dest: digit_not_quote)
  have "takeWhile (\<lambda>c. c \<noteq> CHR 0x22) (body ds v) = ''s:'' @ ds @ '':''"
    unfolding body_def using dq by (simp add: takeWhile_append2)
  moreover have "takeWhile (\<lambda>c. c \<noteq> CHR 0x22) (m_before r @ d' # body ds' v' @ m_after r)
      = m_before r @ d' # takeWhile (\<lambda>c. c \<noteq> CHR 0x22) (body ds' v' @ m_after r)"
    using nb nd by (simp add: takeWhile_append2)
  ultimately have "d' \<in> set (''s:'' @ ds @ '':'')"
    using s by (metis in_set_conv_decomp)
  then have "d' = CHR ''s'' \<or> d' = CHR '':'' \<or> d' \<in> set ds" by auto
  moreover have "d' \<in> set ds \<Longrightarrow> \<not> delimiter d'"
    using assms(1) by (auto simp: list_all_iff dest: digit_not_delimiter)
  ultimately show False
    using u(2) by (auto simp: delimiter_def)
qed

subsection \<open>Taking a match apart\<close>

text \<open>A pattern without groups leaves the captures as they are.\<close>

lemma m_frame: "st' \<in> set (m multi r st) \<Longrightarrow> group_ids r = [] \<Longrightarrow> caps st' = caps st"
proof (induction multi r st arbitrary: st' rule: m.induct)
  case (7 multi a b st)
  then obtain st1 where a: "st1 \<in> set (m multi a st)" and b: "st' \<in> set (m multi b st1)"
    by auto
  from "7.prems"(2) have g: "group_ids a = []" "group_ids b = []" by simp_all
  from "7.IH"(1)[OF a g(1)] "7.IH"(2)[OF a b g(2)] show ?case by simp
next
  case (10 multi g r st)
  then show ?case by (fastforce simp: alternatives_def split: if_splits)
next
  case (11 multi g r st)
  from "11.prems"(2) have gr: "group_ids r = []" by simp
  have "st' = st \<or>
        (\<exists>st1 \<in> set (filter (progress st) (m multi r (reset r st))). st' \<in> set (m multi (Star g r) st1))"
    using "11.prems"(1) by (subst (asm) m.simps(11)) (auto simp: alternatives_def split: if_splits)
  then show ?case
  proof
    assume "st' = st"
    then show ?thesis by simp
  next
    assume "\<exists>st1 \<in> set (filter (progress st) (m multi r (reset r st))). st' \<in> set (m multi (Star g r) st1)"
    then obtain st1 where a: "st1 \<in> set (filter (progress st) (m multi r (reset r st)))"
      and b: "st' \<in> set (m multi (Star g r) st1)" by blast
    from a have a': "st1 \<in> set (m multi r (reset r st))" by simp
    from "11.IH"(1)[OF a' gr] have "caps st1 = caps st" using gr by simp
    moreover from "11.IH"(2)[OF a b] "11.prems"(2) have "caps st' = caps st1" by simp
    ultimately show ?thesis by simp
  qed
qed (auto simp: one_def split: list.splits if_splits)

lemma seq_one_elim:
  assumes "e \<in> set (m multi (Seq a r) st)" "\<And>st. m multi a st = one p st"
  shows "\<exists>c w. rest st = c # w \<and> p c \<and> e \<in> set (m multi r (st\<lparr>prev := Some c, rest := w\<rparr>))"
proof -
  from assms obtain st1 where "st1 \<in> set (one p st)" "e \<in> set (m multi r st1)" by auto
  then show ?thesis by (cases "rest st") (auto simp: one_def split: if_splits)
qed

lemma seq_lit_elim:
  assumes "e \<in> set (m multi (Seq (Lit c) r) st)"
  shows "\<exists>w. rest st = c # w \<and> e \<in> set (m multi r (st\<lparr>prev := Some c, rest := w\<rparr>))"
  using seq_one_elim[OF assms, of "\<lambda>x. x = c"] by auto

lemma seq_group_elim:
  assumes "e \<in> set (m multi (Seq (Group k a) r) st)" "group_ids a = []"
  shows "\<exists>u st1. rest st = u @ rest st1 \<and> u \<in> lang a \<and> caps st1 = (caps st)[k := Some u]
            \<and> e \<in> set (m multi r st1)"
proof -
  from assms(1) obtain st0 where st0: "st0 \<in> set (m multi a st)" and e: "e \<in> set (m multi r (capture k st st0))"
    by auto
  from m_lang[OF st0] obtain u where u: "rest st = u @ rest st0" "u \<in> lang a" by blast
  from m_frame[OF st0 assms(2)] u(1)
  have "caps (capture k st st0) = (caps st)[k := Some u]" "rest st = u @ rest (capture k st st0)"
    by (simp_all add: capture_def)
  with u(2) e show ?thesis by blast
qed

lemma seq_bol_elim:
  "e \<in> set (m multi (Seq Bol r) st) \<Longrightarrow> at_bol multi st \<and> e \<in> set (m multi r st)"
  by (auto split: if_splits)

lemma eol_elim: "e \<in> set (m False Eol st) \<Longrightarrow> rest st = [] \<and> e = st"
  by (auto simp: at_eol_def split: if_splits list.splits)

lemma group_ids_some [simp]: "group_ids (some r) = group_ids r @ group_ids r"
  by (simp add: some_def)

text \<open>From here on the equations of \<open>m\<close> are applied by name only.\<close>

declare m.simps [simp del]

text \<open>Whatever way \<open>re2\<close> matches the text of a token, it reads all of it, it captures
  the digits and the value, and the value is on one line.\<close>

lemma parts_sound:
  assumes e: "e \<in> set (m False (ast parts_re) st)"
    and st: "rest st = d # body ds v" and ds: "list_all is_digit ds"
  shows "rest e = [] \<and> caps e = (caps st)[1 := Some ds, 2 := Some v]
         \<and> list_all (\<lambda>c. \<not> line_terminator c) v"
proof -
  let ?D = "some (Class False [CCls Digit])"
  let ?R9 = "Seq (Lit (CHR '';'')) Eol"
  let ?R8 = "Seq (Lit (CHR 0x22)) ?R9"
  let ?R7 = "Seq (Group 2 (Star True Dot)) ?R8"
  let ?R6 = "Seq (Lit (CHR 0x22)) ?R7"
  let ?R5 = "Seq (Lit (CHR '':'')) ?R6"
  let ?R4 = "Seq (Group 1 ?D) ?R5"
  let ?R3 = "Seq (Lit (CHR '':'')) ?R4"
  let ?R2 = "Seq (Lit (CHR ''s'')) ?R3"
  let ?R1 = "Seq Dot ?R2"
  from e have "e \<in> set (m False (Seq Bol ?R1) st)"
    by (simp add: parts_re_def)
  then have e1: "e \<in> set (m False ?R1 st)"
    by (simp add: seq_bol_elim)
  from seq_one_elim[OF e1, of "\<lambda>x. \<not> line_terminator x"] st
  have e2: "e \<in> set (m False ?R2 (st\<lparr>prev := Some d, rest := body ds v\<rparr>))"
    by (auto simp: m.simps(3))
  from seq_lit_elim[OF e2]
  have e3: "e \<in> set (m False ?R3 (st\<lparr>prev := Some (CHR ''s''), rest := '':'' @ ds @ '':\"'' @ v @ ''\";''\<rparr>))"
    by (auto simp: body_def)
  from seq_lit_elim[OF e3]
  have e4: "e \<in> set (m False ?R4 (st\<lparr>prev := Some (CHR '':''), rest := ds @ '':\"'' @ v @ ''\";''\<rparr>))"
    by auto
  from seq_group_elim[OF e4] obtain u st4 where
    u: "ds @ '':\"'' @ v @ ''\";'' = u @ rest st4" "u \<in> lang ?D"
    and c4: "caps st4 = (caps st)[1 := Some u]" and e5: "e \<in> set (m False ?R5 st4)"
    by auto
  from seq_lit_elim[OF e5] obtain w5 where
    w5: "rest st4 = CHR '':'' # w5" and e6: "e \<in> set (m False ?R6 (st4\<lparr>prev := Some (CHR '':''), rest := w5\<rparr>))"
    by blast
  from lang_some_class[OF u(2)] have ud: "list_all is_digit u" by simp
  from u(1) w5 have "ds @ CHR '':'' # (CHR 0x22 # v @ ''\";'') = u @ CHR '':'' # w5" by simp
  from run_unique[OF this ds ud] have uds: "u = ds" and w5': "w5 = CHR 0x22 # v @ ''\";''" by simp_all
  from seq_lit_elim[OF e6] w5'
  have e7: "e \<in> set (m False ?R7 (st4\<lparr>prev := Some (CHR 0x22), rest := v @ ''\";''\<rparr>))" by auto
  from seq_group_elim[OF e7] obtain u8 st7 where
    u8: "v @ ''\";'' = u8 @ rest st7" "u8 \<in> lang (Star True Dot)"
    and c7: "caps st7 = (caps st4)[2 := Some u8]" and e8: "e \<in> set (m False ?R8 st7)"
    by auto
  from seq_lit_elim[OF e8] obtain w8 where
    w8: "rest st7 = CHR 0x22 # w8" and e9: "e \<in> set (m False ?R9 (st7\<lparr>prev := Some (CHR 0x22), rest := w8\<rparr>))"
    by blast
  from seq_lit_elim[OF e9] obtain w9 where
    w9: "w8 = CHR '';'' # w9"
    and e10: "e \<in> set (m False Eol (st7\<lparr>prev := Some (CHR '';''), rest := w9\<rparr>))"
    by auto
  from eol_elim[OF e10] have fin: "w9 = []" "e = st7\<lparr>prev := Some (CHR '';''), rest := w9\<rparr>"
    by simp_all
  from u8(1) w8 w9 fin(1) have "v @ ''\";'' = u8 @ ''\";''" by simp
  then have u8v: "u8 = v" by simp
  from u8(2) have "list_all (\<lambda>c. \<not> line_terminator c) u8"
    by (auto dest: star_chars)
  with fin c7 c4 uds u8v show ?thesis by simp
qed

lemma seq_bol: "at_bol multi st \<Longrightarrow> m multi (Seq Bol r) st = m multi r st"
  by (simp add: m.simps)

lemma parts_accepts:
  assumes "\<not> line_terminator d" "ds \<noteq> []" "list_all is_digit ds" "single_line v"
    and "prev st = None" "rest st = d # body ds v"
  shows "m False (ast parts_re) st \<noteq> []"
proof -
  have v: "accepts False (Seq (Group 2 (Star True Dot))
             (Seq (Lit (CHR 0x22)) (Seq (Lit (CHR '';'')) Eol))) (v @ ''\";'')"
    by (rule accepts_Group_Seq, rule star_reaches[where p = "\<lambda>c. \<not> line_terminator c"])
       (use assms in \<open>auto simp: m.simps single_line_def intro!: accepts_Lit_Seq accepts_Eol\<close>)
  have "accepts False (Seq (Group 1 (some (Class False [CCls Digit])))
            (Seq (Lit (CHR '':'')) (Seq (Lit (CHR 0x22))
              (Seq (Group 2 (Star True Dot))
                (Seq (Lit (CHR 0x22)) (Seq (Lit (CHR '';'')) Eol)))))) (ds @ '':\"'' @ v @ ''\";'')"
    by (rule accepts_Group_Seq, rule some_reaches[where p = is_digit])
       (use assms v in \<open>auto simp: m.simps intro!: accepts_Lit_Seq\<close>)
  then have "accepts False (Seq Dot (Seq (Lit (CHR ''s'')) (Seq (Lit (CHR '':''))
          (Seq (Group 1 (some (Class False [CCls Digit])))
            (Seq (Lit (CHR '':'')) (Seq (Lit (CHR 0x22))
              (Seq (Group 2 (Star True Dot))
                (Seq (Lit (CHR 0x22)) (Seq (Lit (CHR '';'')) Eol))))))))) (d # body ds v)"
    unfolding body_def using assms(1)
    by (auto intro!: accepts_Dot_Seq accepts_Lit_Seq)
  from acceptsD[OF this assms(6)] show ?thesis
    using assms(5) by (simp add: parts_re_def seq_bol at_bol_def)
qed

lemma match_first_token:
  assumes "\<not> line_terminator d" "ds \<noteq> []" "list_all is_digit ds" "single_line v"
  shows "match_first parts_re (d # body ds v) = Some [Some (d # body ds v), Some ds, Some v]"
proof -
  let ?s = "d # body ds v"
  let ?st = "\<lparr>prev = None, rest = ?s, caps = replicate (Suc (ngroups parts_re)) None\<rparr>"
  have "m False (ast parts_re) ?st \<noteq> []"
    by (rule parts_accepts[OF assms]) simp_all
  then obtain e es where e: "m False (ast parts_re) ?st = e # es"
    by (cases "m False (ast parts_re) ?st") auto
  then have "e \<in> set (m False (ast parts_re) ?st)" by simp
  from parts_sound[OF this _ assms(3), of d v]
  have "rest e = []" "caps e = [None, Some ds, Some v]"
    by (simp_all add: parts_re_def numeral_3_eq_3 numeral_2_eq_2)
  with e have "attempt parts_re None ?s
      = Some \<lparr>m_before = [], m_text = ?s, m_caps = [None, Some ds, Some v],
              m_prev = prev e, m_after = []\<rparr>"
    by (simp add: attempt_def parts_re_def)
  then show ?thesis
    by (simp add: match_first_def)
qed

lemma search_bol_later:
  assumes "ast re = Seq Bol r" "\<not> multiline re"
  shows "search re (Some c) s = None"
proof (induction s arbitrary: c)
  case Nil
  show ?case using assms by (simp add: attempt_def m.simps at_bol_def)
next
  case (Cons x s)
  have "attempt re (Some c) (x # s) = None"
    using assms by (simp add: attempt_def m.simps at_bol_def)
  with Cons show ?case by simp
qed

lemma match_first_line_break:
  assumes "list_all is_digit ds" "\<not> single_line v"
  shows "match_first parts_re (d # body ds v) = None"
proof -
  let ?s = "d # body ds v"
  let ?st = "\<lparr>prev = None, rest = ?s, caps = replicate (Suc (ngroups parts_re)) None\<rparr>"
  have "m False (ast parts_re) ?st = []"
  proof (cases "m False (ast parts_re) ?st")
    case (Cons e es)
    then have "e \<in> set (m False (ast parts_re) ?st)" by simp
    from parts_sound[OF this _ assms(1), of d v] assms(2) show ?thesis
      by (simp add: single_line_def)
  qed simp
  then have "attempt parts_re None ?s = None"
    by (simp add: attempt_def parts_re_def)
  moreover have "search parts_re (Some d) (body ds v) = None"
    by (rule search_bol_later) (simp_all add: parts_re_def)
  ultimately show ?thesis
    by (simp add: match_first_def)
qed

lemma decompose_token:
  assumes "\<not> line_terminator d" "ds \<noteq> []" "list_all is_digit ds"
  shows "decompose (d # body ds v) =
     (if single_line v then Inr \<lparr>source = d # body ds v, chars = parseInt ds, val = v\<rparr>
      else Inl TypeError)"
  using match_first_token[OF assms] match_first_line_break[OF assms(3)]
  by (simp add: decompose_def capture_text_def)

subsection \<open>Every document\<close>

lemma match_all_lang: "mt \<in> set (match_all re p s) \<Longrightarrow> mt \<in> lang (ast re)"
proof (induction re p s rule: match_all.induct)
  case (1 re p s)
  show ?case
  proof (cases "search re p s")
    case None
    with "1.prems" show ?thesis by (subst (asm) match_all.simps) simp
  next
    case (Some r)
    note t = search_lang[OF Some]
    show ?thesis
    proof (cases "m_text r = []")
      case True
      show ?thesis
      proof (cases "m_after r")
        case Nil
        with "1.prems" Some True t show ?thesis
          by (subst (asm) match_all.simps) simp
      next
        case (Cons c cs)
        with "1.prems" Some True t "1.IH"(1)[OF Some True Cons] show ?thesis
          by (subst (asm) match_all.simps) auto
      qed
    next
      case False
      with "1.prems" Some t "1.IH"(2)[OF Some False] show ?thesis
        by (subst (asm) match_all.simps) auto
    qed
  qed
qed

lemma digits_of_token:
  "list_all is_digit ds \<Longrightarrow> digits_of (d # body ds v) = ds"
  by (simp add: digits_of_def body_def takeWhile_tail list_all_iff)

lemma quoted_token:
  assumes "d \<noteq> CHR 0x22" "list_all is_digit ds" "quote_free v"
  shows "quoted (d # body ds v) = v"
proof -
  let ?nq = "\<lambda>c. c \<noteq> CHR 0x22"
  have dq: "\<And>x. x \<in> set ds \<Longrightarrow> ?nq x"
    using assms(2) by (auto simp: list_all_iff dest: digit_not_quote)
  have vq: "\<And>x. x \<in> set v \<Longrightarrow> ?nq x"
    using assms(3) by (auto simp: list_all_iff quote_free_def)
  have "dropWhile ?nq (d # body ds v) = CHR 0x22 # v @ ''\";''"
    using assms(1) dq by (simp add: body_def dropWhile_append2)
  moreover have "takeWhile ?nq (v @ ''\";'') = v"
    using vq by (simp add: takeWhile_append2)
  ultimately show ?thesis by (simp add: quoted_def)
qed

lemma delimiter_not_quote: "delimiter d \<Longrightarrow> d \<noteq> CHR 0x22"
  by (auto simp: delimiter_def)

lemma delimiter_not_terminator: "delimiter d \<Longrightarrow> \<not> line_terminator d"
  by (auto simp: delimiter_def line_terminator_def code_def)

lemma decompose_match:
  assumes "mt \<in> lang (ast scan_re)"
  shows "decompose mt = (if single_line (quoted mt) then Inr (token_of mt) else Inl TypeError)"
proof -
  from scan_lang[OF assms] obtain d ds v where
    mt: "mt = d # body ds v" and d: "delimiter d" and ds: "ds \<noteq> []" "list_all is_digit ds"
    and v: "quote_free v" by blast
  have q: "quoted mt = v" unfolding mt
    by (rule quoted_token[OF delimiter_not_quote[OF d] ds(2) v])
  have g: "digits_of mt = ds" unfolding mt by (rule digits_of_token[OF ds(2)])
  from decompose_token[OF delimiter_not_terminator[OF d] ds, of v]
  show ?thesis
    unfolding token_of_def q g by (simp add: mt)
qed

lemma collect_map:
  assumes "\<And>x. x \<in> set xs \<Longrightarrow> f x = (if P x then Inr (g x) else Inl e)"
  shows "collect (map f xs) = (if list_all P xs then Inr (map g xs) else Inl e)"
  using assms by (induction xs) auto

text \<open>What the scanner returns on any document: one token for each match of the scanning
  pattern, in their order, unless the value of a match has a line break in it.\<close>

lemma findSerializedStrings_matches:
  "findSerializedStrings sql =
     (if list_all (\<lambda>mt. single_line (quoted mt)) (match_all scan_re None sql)
      then Inr (map token_of (match_all scan_re None sql))
      else Inl TypeError)"
  unfolding findSerializedStrings_def
  by (rule collect_map) (rule decompose_match, rule match_all_lang)

text \<open>
  Claim C7, at the document that holds the one token \<open>;s:1:"X";\<close> where \<open>X\<close> is a
  line feed. The scanning pattern matches it, since \<open>[^"]\<close> accepts a line feed; the
  pattern that takes the match apart does not, since \<open>.\<close> refuses one, and the scanner
  throws instead of returning the token.
\<close>

theorem scanner_line_break_failing_input: \<open>
    match_all scan_re None ('';s:1:"'' @ [CHR 0x0A] @ ''";'') = ['';s:1:"'' @ [CHR 0x0A] @ ''";'']
  \<and> match_first parts_re ('';s:1:"'' @ [CHR 0x0A] @ ''";'') = None
  \<and> findSerializedStrings ('';s:1:"'' @ [CHR 0x0A] @ ''";'') = Inl TypeError\<close>
  by code_simp

subsection \<open>Where the search resumes after a token\<close>

text \<open>The character before the position that a match ends at is the last one it has
  read, or the one before the match when it has read nothing.\<close>

lemma m_prev:
  "st' \<in> set (m multi r st) \<Longrightarrow>
   \<exists>u. rest st = u @ rest st' \<and> prev st' = (if u = [] then prev st else Some (last u))"
proof (induction multi r st arbitrary: st' rule: m.induct)
  case (1 multi st)
  then show ?case by (auto simp: m.simps(1))
next
  case (2 multi c st)
  then show ?case by (cases "rest st") (auto simp: m.simps(2) one_def split: if_splits)
next
  case (3 multi st)
  then show ?case by (cases "rest st") (auto simp: m.simps(3) one_def split: if_splits)
next
  case (4 multi neg items st)
  then show ?case by (cases "rest st") (auto simp: m.simps(4) one_def split: if_splits)
next
  case (5 multi st)
  then show ?case by (auto simp: m.simps(5) split: if_splits)
next
  case (6 multi st)
  then show ?case by (auto simp: m.simps(6) split: if_splits)
next
  case (7 multi a b st)
  then obtain st1 where a: "st1 \<in> set (m multi a st)" and b: "st' \<in> set (m multi b st1)"
    by (auto simp: m.simps(7))
  from "7.IH"(1)[OF a] obtain u where
    u: "rest st = u @ rest st1" "prev st1 = (if u = [] then prev st else Some (last u))" by blast
  from "7.IH"(2)[OF a b] obtain v where
    v: "rest st1 = v @ rest st'" "prev st' = (if v = [] then prev st1 else Some (last v))" by blast
  from u v have "rest st = (u @ v) @ rest st'"
    "prev st' = (if u @ v = [] then prev st else Some (last (u @ v)))" by simp_all
  then show ?case by blast
next
  case (8 multi a b st)
  from "8.prems" have "st' \<in> set (m multi a st) \<or> st' \<in> set (m multi b st)"
    by (simp add: m.simps(8))
  then show ?case using "8.IH" by blast
next
  case (9 multi k r st)
  from "9.prems" obtain x where x: "x \<in> set (m multi r st)" and s: "st' = capture k st x"
    by (auto simp: m.simps(9))
  from "9.IH"[OF x] obtain u where
    "rest st = u @ rest x" "prev x = (if u = [] then prev st else Some (last u))" by blast
  with s have "rest st = u @ rest st'" "prev st' = (if u = [] then prev st else Some (last u))"
    by (simp_all add: capture_def)
  then show ?case by blast
next
  case (10 multi g r st)
  have "st' = st \<or> st' \<in> set (m multi r (reset r st))"
    using "10.prems" by (auto simp: m.simps(10) alternatives_def split: if_splits)
  then show ?case
  proof
    assume "st' = st"
    then have "rest st = [] @ rest st'" "prev st' = (if [] = ([] :: string) then prev st else Some (last []))"
      by simp_all
    then show ?thesis by blast
  next
    assume "st' \<in> set (m multi r (reset r st))"
    from "10.IH"[OF this] obtain u where
      "rest (reset r st) = u @ rest st'"
      "prev st' = (if u = [] then prev (reset r st) else Some (last u))" by blast
    then have "rest st = u @ rest st'" "prev st' = (if u = [] then prev st else Some (last u))"
      by (simp_all add: reset_def cong: if_cong)
    then show ?thesis by blast
  qed
next
  case (11 multi g r st)
  have "st' = st \<or>
        (\<exists>st1 \<in> set (filter (progress st) (m multi r (reset r st))). st' \<in> set (m multi (Star g r) st1))"
    using "11.prems" by (subst (asm) m.simps(11)) (auto simp: alternatives_def split: if_splits)
  then show ?case
  proof
    assume "st' = st"
    then have "rest st = [] @ rest st'" "prev st' = (if [] = ([] :: string) then prev st else Some (last []))"
      by simp_all
    then show ?thesis by blast
  next
    assume "\<exists>st1 \<in> set (filter (progress st) (m multi r (reset r st))). st' \<in> set (m multi (Star g r) st1)"
    then obtain st1 where a: "st1 \<in> set (filter (progress st) (m multi r (reset r st)))"
      and b: "st' \<in> set (m multi (Star g r) st1)" by blast
    from a have a': "st1 \<in> set (m multi r (reset r st))" by simp
    from "11.IH"(1)[OF a'] obtain u where
      u: "rest st = u @ rest st1" "prev st1 = (if u = [] then prev st else Some (last u))"
      by (auto simp: reset_def cong: if_cong)
    from "11.IH"(2)[OF a b] obtain v where
      v: "rest st1 = v @ rest st'" "prev st' = (if v = [] then prev st1 else Some (last v))" by auto
    from u v have "rest st = (u @ v) @ rest st'"
      "prev st' = (if u @ v = [] then prev st else Some (last (u @ v)))" by simp_all
    then show ?thesis by blast
  qed
next
  case (12 multi neg st)
  then show ?case by (auto simp: m.simps(12) split: if_splits)
qed

lemma attempt_prev:
  assumes "attempt re p s = Some r"
  shows "m_prev r = (if m_text r = [] then p else Some (last (m_text r)))"
proof -
  let ?st = "\<lparr>prev = p, rest = s, caps = replicate (Suc (ngroups re)) None\<rparr>"
  from assms obtain e es where e: "m (multiline re) (ast re) ?st = e # es"
    by (auto simp: attempt_def split: list.splits)
  then have "e \<in> set (m (multiline re) (ast re) ?st)" by simp
  from m_prev[OF this] obtain u where "s = u @ rest e"
    "prev e = (if u = [] then p else Some (last u))" by auto
  with assms e show ?thesis by (auto simp: attempt_def)
qed

lemma search_prev:
  "search re p s = Some r \<Longrightarrow> m_text r \<noteq> [] \<Longrightarrow> m_prev r = Some (last (m_text r))"
proof (induction s arbitrary: p r)
  case Nil
  then show ?case by (auto dest: attempt_prev)
next
  case (Cons c cs)
  then show ?case
    by (cases "attempt re p (c # cs)") (auto dest: attempt_prev split: option.splits)
qed

lemma attempt_not_delimiter:
  assumes "\<not> delimiter c"
  shows "attempt scan_re q (c # s) = None"
proof (rule ccontr)
  assume "attempt scan_re q (c # s) \<noteq> None"
  then obtain r where r: "attempt scan_re q (c # s) = Some r" by auto
  from attempt_lang[OF r] have t: "m_text r \<in> lang (ast scan_re)"
    and s: "c # s = m_text r @ m_after r" by simp_all
  from scan_lang[OF t] obtain d ds v where "m_text r = d # body ds v" "delimiter d" by blast
  with s assms show False by simp
qed

lemma search_skip:
  assumes "list_all (\<lambda>c. \<not> delimiter c) P"
  shows "\<exists>q'. search scan_re q (P @ X)
            = map_option (\<lambda>r. r\<lparr>m_before := P @ m_before r\<rparr>) (search scan_re q' X)"
  using assms
proof (induction P arbitrary: q)
  case Nil
  have "search scan_re q X = map_option (\<lambda>r. r\<lparr>m_before := [] @ m_before r\<rparr>) (search scan_re q X)"
    by (cases "search scan_re q X") simp_all
  then show ?case by (metis append_Nil)
next
  case (Cons c P)
  from Cons.prems have c: "\<not> delimiter c" and P: "list_all (\<lambda>c. \<not> delimiter c) P" by simp_all
  from Cons.IH[OF P, of "Some c"] obtain q' where
    q': "search scan_re (Some c) (P @ X)
           = map_option (\<lambda>r. r\<lparr>m_before := P @ m_before r\<rparr>) (search scan_re q' X)" by blast
  have "search scan_re q ((c # P) @ X)
          = map_option (\<lambda>r. r\<lparr>m_before := (c # P) @ m_before r\<rparr>) (search scan_re q' X)"
    using attempt_not_delimiter[OF c, of q "P @ X"] q'
    by (cases "search scan_re q' X") simp_all
  then show ?case by blast
qed

lemma prefix_not_delimiter:
  "list_all is_digit ds \<Longrightarrow> list_all (\<lambda>c. \<not> delimiter c) (''s:'' @ ds @ '':\"'')"
  by (auto simp: list_all_iff delimiter_def is_digit_def code_def)

text \<open>The match at a token ends with the semicolon of the token, and the global search
  resumes behind it.\<close>

lemma last_token: "last (d # body ds v) = CHR '';''"
  by (simp add: body_def)

lemma match_all_token_first:
  assumes "delimiter d" "ds \<noteq> []" "list_all is_digit ds" "v \<noteq> []" "quote_free v"
  shows "match_all scan_re p (d # body ds v @ R)
           = (d # body ds v) # match_all scan_re (Some (CHR '';'')) R"
proof -
  from search_token_first[OF assms, of p R] obtain r where
    r: "search scan_re p (d # body ds v @ R) = Some r" "m_before r = []"
       "m_text r = d # body ds v" "m_after r = R" by blast
  from search_prev[OF r(1)] r(3) have "m_prev r = Some (CHR '';'')"
    by (simp add: last_token del: last.simps)
  with r show ?thesis
    by (subst match_all.simps) (simp del: search.simps)
qed

lemma search_after_prefix:
  assumes "list_all is_digit ds" "search scan_re q (body ds v @ R) = Some r"
  shows "\<exists>w. m_before r = ''s:'' @ ds @ '':\"'' @ w"
proof -
  have b: "body ds v @ R = (''s:'' @ ds @ '':\"'') @ (v @ ''\";'' @ R)"
    by (simp add: body_def)
  from search_skip[OF prefix_not_delimiter[OF assms(1)], of q "v @ ''\";'' @ R"] obtain q' where
    "search scan_re q (body ds v @ R)
       = map_option (\<lambda>r. r\<lparr>m_before := (''s:'' @ ds @ '':\"'') @ m_before r\<rparr>)
           (search scan_re q' (v @ ''\";'' @ R))"
    unfolding b by blast
  with assms(2) obtain r' where "r = r'\<lparr>m_before := (''s:'' @ ds @ '':\"'') @ m_before r'\<rparr>"
    by auto
  then have "m_before r = ''s:'' @ ds @ '':\"'' @ m_before r'" by simp
  then show ?thesis by blast
qed

lemma match_all_skipped_token:
  assumes "list_all is_digit ds2" "list_all (\<lambda>c. \<not> delimiter c) v2"
    and "ds3 \<noteq> []" "list_all is_digit ds3" "v3 \<noteq> []" "quote_free v3"
  shows "match_all scan_re q (body ds2 v2 @ body ds3 v3 @ R)
           = (CHR '';'' # body ds3 v3) # match_all scan_re (Some (CHR '';'')) R"
proof -
  let ?P = "''s:'' @ ds2 @ '':\"'' @ v2 @ ''\"''"
  have b: "body ds2 v2 @ body ds3 v3 @ R = ?P @ (CHR '';'' # body ds3 v3 @ R)"
    by (simp add: body_def)
  have P: "list_all (\<lambda>c. \<not> delimiter c) ?P"
    using prefix_not_delimiter[OF assms(1)] assms(2) by (simp add: delimiter_def)
  have d: "delimiter (CHR '';'')" by (simp add: delimiter_def)
  from search_skip[OF P, of q "CHR '';'' # body ds3 v3 @ R"] obtain q' where
    s: "search scan_re q (body ds2 v2 @ body ds3 v3 @ R)
          = map_option (\<lambda>r. r\<lparr>m_before := ?P @ m_before r\<rparr>)
              (search scan_re q' (CHR '';'' # body ds3 v3 @ R))"
    unfolding b by blast
  from search_token_first[OF d assms(3-6), of q' R] obtain r where
    r: "search scan_re q' (CHR '';'' # body ds3 v3 @ R) = Some r" "m_before r = []"
       "m_text r = CHR '';'' # body ds3 v3" "m_after r = R" by blast
  from search_prev[OF r(1)] r(3) have "m_prev r = Some (CHR '';'')"
    by (simp add: last_token del: last.simps)
  with s r show ?thesis
    by (subst match_all.simps) (simp del: search.simps)
qed

lemma match_all_body:
  assumes "list_all is_digit ds" "quote_free v"
  shows "match_all scan_re q (body ds v) = []"
  by (subst match_all.simps) (simp add: no_token_in_body[OF assms])

text \<open>
  Claim C10, as stated. The scanner does not return only the first of two adjacent
  tokens, and it is not the case that the second one is never patched.
  \<^item> In \<open>;s:1:"a";s:1:"b";s:1:"c";\<close> the second and the third token are adjacent in
    the sense of the claim, and the scanner returns the third and not the second: it
    returns the tokens of \<open>a\<close> and \<open>c\<close>.
  \<^item> In \<open>;s:3:"a+b";s:3:"aab";\<close> the scanner returns the first token only. With the
    find pattern \<open>[+]\<close> and the replacement \<open>-\<close> the first token is planned, and its
    search key \<open>s:3:"a+b"\<close>, read as a pattern, matches the text of the second token:
    the patch replaces \<open>s:3:"aab"\<close> by \<open>s:3:";s:3:"a-b";"\<close>, with the progress bar and
    without it.
\<close>

theorem adjacent_tokens_counterexample: \<open>
    findSerializedStrings '';s:1:"a";s:1:"b";s:1:"c";''
      = Inr [\<lparr>source = '';s:1:"a";'', chars = 1, val = ''a''\<rparr>,
             \<lparr>source = '';s:1:"c";'', chars = 1, val = ''c''\<rparr>]
  \<and> findSerializedStrings '';s:3:"a+b";s:3:"aab";''
      = Inr [\<lparr>source = '';s:3:"a+b";'', chars = 3, val = ''a+b''\<rparr>]
  \<and> rewriteSerializedSql False '';s:3:"a+b";s:3:"aab";'' ''[+]'' ''-''
      = Inr '';s:3:"a+b";s:3:";s:3:"a-b";";''
  \<and> rewriteSerializedSql True '';s:3:"a+b";s:3:"aab";'' ''[+]'' ''-''
      = Inr '';s:3:"a+b";s:3:";s:3:"a-b";";''\<close>
  by code_simp

text \<open>
  Claim C10, amended. Two well-formed tokens, the second of which starts right after
  the semicolon that ends the first: a delimiter \<open>d\<close>, then \<open>s:\<close>, digits \<open>ds1\<close>, \<open>:\<close>
  and the quoted value \<open>v1\<close> with its semicolon, then \<open>s:\<close>, digits \<open>ds2\<close>, \<open>:\<close> and
  the quoted value \<open>v2\<close> with its semicolon, then any text \<open>R\<close>; the global search
  stands at \<open>d\<close>, whatever character \<open>p\<close> comes before it.
  \<^item> The first match is the first token, and it takes the shared semicolon: the other
    matches are those of the search that starts at the \<open>s\<close> of the second token.
  \<^item> Every match in the text from that \<open>s\<close> on, whatever follows the second token,
    starts at the first character of \<open>v2\<close> or later; so the second token is not
    matched at its place.
  \<^item> In the document that is these two tokens the global match finds the first token
    and nothing else, and the scanner returns the first token alone when \<open>v1\<close> is on
    one line, and throws a \<open>TypeError\<close> otherwise (for a length prefix of at most 15
    digits, which \<open>parseInt\<close> reads exactly).
  \<^item> Tokens further on are scanned: when \<open>v2\<close> has none of \<open>;\<close>, \<open>{\<close>, \<open>}\<close> in it and a
    third well-formed token of digits \<open>ds3\<close> and value \<open>v3\<close> starts right after the
    second, the second match is the third token.
  Nothing is said of the patches: the patch of another token can change the text of a
  token that was not scanned.
\<close>

theorem adjacent_token_delimiter_consumed:
  assumes "delimiter d" "ds1 \<noteq> []" "list_all is_digit ds1" "v1 \<noteq> []" "quote_free v1"
    and "ds2 \<noteq> []" "list_all is_digit ds2" "v2 \<noteq> []" "quote_free v2"
  shows "match_all scan_re p (d # body ds1 v1 @ body ds2 v2 @ R)
           = (d # body ds1 v1) # match_all scan_re (Some (CHR '';'')) (body ds2 v2 @ R)
       \<and> (\<forall>q S r. search scan_re q (body ds2 v2 @ S) = Some r
             \<longrightarrow> (\<exists>w. m_before r = ''s:'' @ ds2 @ '':\"'' @ w))
       \<and> match_all scan_re p (d # body ds1 v1 @ body ds2 v2) = [d # body ds1 v1]
       \<and> (length ds1 \<le> 15
          \<longrightarrow> findSerializedStrings (d # body ds1 v1 @ body ds2 v2)
                = (if single_line v1
                   then Inr [\<lparr>source = d # body ds1 v1, chars = parseInt ds1, val = v1\<rparr>]
                   else Inl TypeError))
       \<and> (list_all (\<lambda>c. \<not> delimiter c) v2
            \<and> ds3 \<noteq> [] \<and> list_all is_digit ds3 \<and> v3 \<noteq> [] \<and> quote_free v3
          \<longrightarrow> match_all scan_re p (d # body ds1 v1 @ body ds2 v2 @ body ds3 v3 @ R)
                = (d # body ds1 v1) # (CHR '';'' # body ds3 v3)
                    # match_all scan_re (Some (CHR '';'')) R)"
proof (intro conjI allI impI)
  show "match_all scan_re p (d # body ds1 v1 @ body ds2 v2 @ R)
          = (d # body ds1 v1) # match_all scan_re (Some (CHR '';'')) (body ds2 v2 @ R)"
    by (rule match_all_token_first[OF assms(1-5)])
next
  fix q S r
  assume "search scan_re q (body ds2 v2 @ S) = Some r"
  then show "\<exists>w. m_before r = ''s:'' @ ds2 @ '':\"'' @ w"
    by (rule search_after_prefix[OF assms(7)])
next
  show a: "match_all scan_re p (d # body ds1 v1 @ body ds2 v2) = [d # body ds1 v1]" for p
    using match_all_token_first[OF assms(1-5), of p "body ds2 v2"]
      match_all_body[OF assms(7,9)] by simp
  assume "length ds1 \<le> 15"
  show "findSerializedStrings (d # body ds1 v1 @ body ds2 v2)
          = (if single_line v1
             then Inr [\<lparr>source = d # body ds1 v1, chars = parseInt ds1, val = v1\<rparr>]
             else Inl TypeError)"
    using decompose_token[OF delimiter_not_terminator[OF assms(1)] assms(2,3), of v1]
    by (simp add: findSerializedStrings_def a)
next
  assume "list_all (\<lambda>c. \<not> delimiter c) v2
            \<and> ds3 \<noteq> [] \<and> list_all is_digit ds3 \<and> v3 \<noteq> [] \<and> quote_free v3"
  then have h: "list_all (\<lambda>c. \<not> delimiter c) v2" "ds3 \<noteq> []" "list_all is_digit ds3"
    "v3 \<noteq> []" "quote_free v3" by simp_all
  show "match_all scan_re p (d # body ds1 v1 @ body ds2 v2 @ body ds3 v3 @ R)
          = (d # body ds1 v1) # (CHR '';'' # body ds3 v3)
              # match_all scan_re (Some (CHR '';'')) R"
    using match_all_token_first[OF assms(1-5), of p "body ds2 v2 @ body ds3 v3 @ R"]
      match_all_skipped_token[OF assms(7) h, of "Some (CHR '';'')" R]
    by simp
qed

theorem adjacent_token_delimiter_consumed_witness: \<open>
    delimiter (CHR '';'') \<and> list_all is_digit ''1'' \<and> length ''1'' \<le> 15
  \<and> quote_free ''a'' \<and> quote_free ''b'' \<and> quote_free ''c''
  \<and> single_line ''a'' \<and> list_all (\<lambda>c. \<not> delimiter c) ''b''
  \<and> search scan_re None ''s:1:"b";s:1:"c";''
      = Some \<lparr>m_before = ''s:1:"b"'', m_text = '';s:1:"c";'',
               m_caps = [None, Some ''1'', Some ''c''],
               m_prev = Some (CHR '';''), m_after = []\<rparr>
  \<and> match_all scan_re None '';s:1:"a";s:1:"b";'' = ['';s:1:"a";'']
  \<and> findSerializedStrings '';s:1:"a";s:1:"b";''
      = Inr [\<lparr>source = '';s:1:"a";'', chars = 1, val = ''a''\<rparr>]
  \<and> match_all scan_re None '';s:1:"a";s:1:"b";s:1:"c";''
      = ['';s:1:"a";'', '';s:1:"c";'']\<close>
proof -
  have h: "delimiter (CHR '';'')" "''1'' \<noteq> []" "list_all is_digit ''1''"
    "''a'' \<noteq> []" "quote_free ''a''" "''b'' \<noteq> []" "quote_free ''b''"
    "''c'' \<noteq> []" "quote_free ''c''" "single_line ''a''"
    "list_all (\<lambda>c. \<not> delimiter c) ''b''"
    by (simp_all add: delimiter_def is_digit_def code_def quote_free_def single_line_def
        line_terminator_def)
  have p: "parseInt ''1'' = 1"
    by (simp add: parseInt_def is_digit_def digit_val_def code_def)
  have s: \<open>search scan_re None ''s:1:"b";s:1:"c";''
      = Some \<lparr>m_before = ''s:1:"b"'', m_text = '';s:1:"c";'',
               m_caps = [None, Some ''1'', Some ''c''],
               m_prev = Some (CHR '';''), m_after = []\<rparr>\<close>
    by code_simp
  have e: "match_all scan_re (Some (CHR '';'')) [] = []"
    \<open>match_all scan_re (Some (CHR '';'')) ''s:1:"b";'' = []\<close>
    by code_simp+
  show ?thesis
    using h s e adjacent_token_delimiter_consumed[OF h(1,2,3,4,5) h(2,3) h(6,7),
        where p = None and R = "[]" and ?ds3.0 = "''1''" and ?v3.0 = "''c''"]
    by (simp add: body_def p del: search.simps)
qed

section \<open>The rewrite plan\<close>

text \<open>\<open>rewriteChars\<close> is 0 for a token that the find pattern does not match, and for a
  token whose whole source text the substitution has emptied; for no other token.\<close>

lemma create_unmatched:
  "\<not> test re (source t) \<Longrightarrow>
   rewriteChars (createRewriteValue re re2 repl t) = 0
   \<and> rewriteValue (createRewriteValue re re2 repl t) = None"
  by (simp add: createRewriteValue_def token.defs)

lemma create_matched:
  "test re (source t) \<Longrightarrow>
   rewriteChars (createRewriteValue re re2 repl t)
     = length (replace (replace (source t) re2 repl) value_re ''$1'')
   \<and> rewriteValue (createRewriteValue re re2 repl t) = Some (replace (source t) re2 repl)"
  by (simp add: createRewriteValue_def token.defs)

lemma seq_elim:
  "e \<in> set (m multi (Seq a r) st) \<Longrightarrow> \<exists>st1 \<in> set (m multi a st). e \<in> set (m multi r st1)"
  by (auto simp: m.simps)

lemma value_capture:
  assumes e: "e \<in> set (m False (ast value_re) st)" and n: "1 < length (caps st)"
  shows "\<exists>u. u \<noteq> [] \<and> caps e ! 1 = Some u \<and> length (caps e) = length (caps st)"
proof -
  let ?D = "some (Class False [CCls Digit])"
  let ?V = "some (Class True [CChar (CHR 0x22)])"
  let ?R8 = "Seq (Lit (CHR 0x22)) (Seq Dot Eol)"
  let ?R7 = "Seq (Group 1 ?V) ?R8"
  let ?R6 = "Seq (Lit (CHR 0x22)) ?R7"
  let ?R5 = "Seq (Lit (CHR '':'')) ?R6"
  let ?R4 = "Seq ?D ?R5"
  let ?R3 = "Seq (Lit (CHR '':'')) ?R4"
  let ?R2 = "Seq (Lit (CHR ''s'')) ?R3"
  let ?R1 = "Seq Dot ?R2"
  from e have "e \<in> set (m False (Seq Bol ?R1) st)"
    by (simp add: value_re_def)
  then have "e \<in> set (m False ?R1 st)" by (simp add: seq_bol_elim)
  from seq_elim[OF this] obtain st1 where st1: "st1 \<in> set (m False Dot st)" and e2: "e \<in> set (m False ?R2 st1)"
    by blast
  from seq_elim[OF e2] obtain st2 where st2: "st2 \<in> set (m False (Lit (CHR ''s'')) st1)" and e3: "e \<in> set (m False ?R3 st2)"
    by blast
  from seq_elim[OF e3] obtain st3 where st3: "st3 \<in> set (m False (Lit (CHR '':'')) st2)" and e4: "e \<in> set (m False ?R4 st3)"
    by blast
  from seq_elim[OF e4] obtain st4 where st4: "st4 \<in> set (m False ?D st3)" and e5: "e \<in> set (m False ?R5 st4)"
    by blast
  from seq_elim[OF e5] obtain st5 where st5: "st5 \<in> set (m False (Lit (CHR '':'')) st4)" and e6: "e \<in> set (m False ?R6 st5)"
    by blast
  from seq_elim[OF e6] obtain st6 where st6: "st6 \<in> set (m False (Lit (CHR 0x22)) st5)" and e7: "e \<in> set (m False ?R7 st6)"
    by blast
  have "caps st6 = caps st"
    using m_frame[OF st1] m_frame[OF st2] m_frame[OF st3] m_frame[OF st4] m_frame[OF st5] m_frame[OF st6]
    by simp
  moreover from seq_group_elim[OF e7] obtain u st7 where
    u: "u \<in> lang ?V" and c7: "caps st7 = (caps st6)[1 := Some u]" and e8: "e \<in> set (m False ?R8 st7)"
    by auto
  moreover from m_frame[OF e8] have "caps e = caps st7" by simp
  moreover from lang_some_class[OF u] have "u \<noteq> []" by simp
  ultimately show ?thesis using n by auto
qed

lemma replace_value_empty: "replace [] value_re ''$1'' = []"
  by code_simp

lemma expand_dollar_one:
  "expand 1 cs pre mt post ''$1'' = capture_text cs 1"
  by (simp add: is_digit_def digit_val_def code_def)

lemma search_bol_first:
  assumes "ast re = Seq Bol r" "\<not> multiline re" "search re None s = Some x"
  shows "attempt re None s = Some x"
proof (cases s)
  case Nil
  with assms(3) show ?thesis by simp
next
  case (Cons c cs)
  from search_bol_later[OF assms(1,2), of c cs] assms(3) Cons show ?thesis
    by (cases "attempt re None (c # cs)") simp_all
qed

lemma replace_value_nonempty:
  assumes "rv \<noteq> []"
  shows "replace rv value_re ''$1'' \<noteq> []"
proof (cases "search value_re None rv")
  case None
  with assms show ?thesis by (simp add: replace_def value_re_def)
next
  case (Some r)
  let ?st = "\<lparr>prev = None, rest = rv, caps = replicate (Suc (ngroups value_re)) None\<rparr>"
  have a: "attempt value_re None rv = Some r"
    by (rule search_bol_first[OF _ _ Some]) (simp_all add: value_re_def)
  then obtain e es where e: "m False (ast value_re) ?st = e # es" and c: "m_caps r = caps e"
    by (auto simp: attempt_def value_re_def split: list.splits)
  from e have "e \<in> set (m False (ast value_re) ?st)" by simp
  from value_capture[OF this] obtain u where "u \<noteq> []" "caps e ! 1 = Some u" "length (caps e) = 2"
    by (auto simp: value_re_def)
  with c have t: "capture_text (m_caps r) 1 \<noteq> []"
    by (simp add: capture_text_def)
  have g: "\<not> global value_re" "ngroups value_re = 1"
    by (simp_all add: value_re_def)
  have "substitution value_re [] r ''$1'' = capture_text (m_caps r) 1"
    unfolding substitution_def g by (rule expand_dollar_one)
  with Some g(1) have "replace rv value_re ''$1'' = m_before r @ capture_text (m_caps r) 1 @ m_after r"
    by (simp add: replace_def)
  with t show ?thesis by simp
qed

lemma rewriteChars_zero:
  "rewriteChars (createRewriteValue re re2 repl t) = 0
     \<longleftrightarrow> \<not> test re (source t) \<or> replace (source t) re2 repl = []"
proof (cases "test re (source t)")
  case True
  show ?thesis
  proof (cases "replace (source t) re2 repl = []")
    case e: True
    with True show ?thesis by (simp add: create_matched replace_value_empty)
  next
    case False
    from replace_value_nonempty[OF this] True False show ?thesis
      by (simp add: create_matched)
  qed
next
  case False
  then show ?thesis by (simp add: create_unmatched)
qed

text \<open>
  Claim C1, at the input \<open>;s:5:"hello";\<close> with find \<open>hello\<close> and replace \<open>hi\<close>. The
  token is scanned with length 5, which is the length of its value. The rewrite puts
  the whole rewritten source text \<open>;s:5:"hi";\<close> between the quotes, not the new value
  \<open>hi\<close>: the document becomes \<open>;s:2:";s:5:"hi";";\<close>. The only token a scan of that
  output finds declares length 5 for the value \<open>hi\<close>.
\<close>

theorem rewritten_token_length_failing_input: \<open>
    findSerializedStrings '';s:5:"hello";''
      = Inr [\<lparr>source = '';s:5:"hello";'', chars = 5, val = ''hello''\<rparr>]
  \<and> rewriteSerializedSql False '';s:5:"hello";'' ''hello'' ''hi'' = Inr '';s:2:";s:5:"hi";";''
  \<and> rewriteSerializedSql True '';s:5:"hello";'' ''hello'' ''hi'' = Inr '';s:2:";s:5:"hi";";''
  \<and> main (cli ''in.sql'' ''out.sql'' ''hello'' ''hi'' False) (single_file ''in.sql'' '';s:5:"hello";'')
      = \<lparr>exit_code = 0, written = [(''out.sql'', '';s:2:";s:5:"hi";";'')]\<rparr>
  \<and> findSerializedStrings '';s:2:";s:5:"hi";";''
      = Inr [\<lparr>source = '';s:5:"hi";'', chars = 5, val = ''hi''\<rparr>]\<close>
  by code_simp

text \<open>
  Claim C5, at the input \<open>;s:5:"hello";\<close> with find \<open>hello()\<close> and replace \<open>$1\<close>,
  which leaves the quoted value empty. The literal that extracts the new value asks for
  at least one character between the quotes, so it does not match \<open>;s:5:"";\<close>, and
  \<open>rewriteChars\<close> is the length 8 of that whole text, not 0. The token stays in the plan
  and the document is patched to \<open>;s:8:";s:5:"";";\<close>.
\<close>

theorem emptied_value_failing_input: \<open>
    findSerializedStrings '';s:5:"hello";''
      = Inr [\<lparr>source = '';s:5:"hello";'', chars = 5, val = ''hello''\<rparr>]
  \<and> map_sum id (\<lambda>re. createRewriteValue re (re\<lparr>global := True\<rparr>) ''$1''
                        \<lparr>source = '';s:5:"hello";'', chars = 5, val = ''hello''\<rparr>)
        (RegExp ''hello()'' [])
      = Inr \<lparr>source = '';s:5:"hello";'', chars = 5, val = ''hello'',
             rewriteChars = 8, rewriteValue = Some '';s:5:"";''\<rparr>
  \<and> rewriteSerializedSql False '';s:5:"hello";'' ''hello()'' ''$1'' = Inr '';s:8:";s:5:"";";''
  \<and> main (cli ''in.sql'' ''out.sql'' ''hello()'' ''$1'' False)
         (single_file ''in.sql'' '';s:5:"hello";'')
      = \<lparr>exit_code = 0, written = [(''out.sql'', '';s:8:";s:5:"";";'')]\<rparr>\<close>
  by code_simp

section \<open>The two loops of the patcher\<close>

text \<open>When the bar's total is the length of the plan, the timer does what \<open>_.each\<close>
  does; when the total is larger, the timer ends with an exception.\<close>

lemma timer_each:
  assumes "idx < length strings"
  shows "timer strings idx \<lparr>bar_curr = idx, bar_total = length strings, bar_complete = False\<rparr> sql
         = each (drop idx strings) sql"
  using assms
proof (induction "length strings - idx" arbitrary: idx sql)
  case 0
  then show ?case by simp
next
  case (Suc n)
  from Suc.prems have d: "drop idx strings = strings ! idx # drop (Suc idx) strings"
    by (simp add: Cons_nth_drop_Suc)
  show ?case
  proof (cases "patch sql (strings ! idx)")
    case (Inl e)
    with Suc.prems d show ?thesis by (subst timer.simps) simp
  next
    case (Inr sql')
    show ?thesis
    proof (cases "Suc idx < length strings")
      case True
      from Suc.hyps(2) have "n = length strings - Suc idx" by simp
      from Suc.hyps(1)[OF this True, of sql'] Inr Suc.prems d True show ?thesis
        by (subst timer.simps) (simp add: tick_def)
    next
      case False
      with Suc.prems have "Suc idx = length strings" by simp
      with Inr Suc.prems d show ?thesis
        by (subst timer.simps) (simp add: tick_def)
    qed
  qed
qed

lemma timer_short:
  assumes "length strings < n"
  shows "timer strings idx \<lparr>bar_curr = idx, bar_total = n, bar_complete = False\<rparr> sql
         = (case each (drop idx strings) sql of Inl e \<Rightarrow> Inl e | Inr x \<Rightarrow> Inl TypeError)"
proof (induction "length strings - idx" arbitrary: idx sql)
  case 0
  then show ?case by (subst timer.simps) simp
next
  case (Suc k)
  then have lt: "idx < length strings" by simp
  then have d: "drop idx strings = strings ! idx # drop (Suc idx) strings"
    by (simp add: Cons_nth_drop_Suc)
  show ?case
  proof (cases "patch sql (strings ! idx)")
    case (Inl e)
    with lt d show ?thesis by (subst timer.simps) simp
  next
    case (Inr sql')
    from Suc.hyps(2) have "k = length strings - Suc idx" by simp
    from Suc.hyps(1)[OF this, of sql'] Inr lt d assms show ?thesis
      by (subst timer.simps) (simp add: tick_def)
  qed
qed

text \<open>With and without progress bar the rewrite gives the same result whenever no
  token that the find pattern matches is filtered out of the plan.\<close>

lemma rewriteTokens_verbose:
  assumes "\<And>re re2 t. RegExp fnd [] = Inr re \<Longrightarrow> RegExp fnd ''g'' = Inr re2 \<Longrightarrow> t \<in> set found \<Longrightarrow>
             rewriteValue (createRewriteValue re re2 repl t) \<noteq> None \<Longrightarrow>
             rewriteChars (createRewriteValue re re2 repl t) \<noteq> 0"
  shows "rewriteTokens True sql fnd repl found = rewriteTokens False sql fnd repl found"
proof (cases "RegExp fnd []")
  case (Inl e)
  then show ?thesis by (simp add: rewriteTokens_def)
next
  case re: (Inr re)
  show ?thesis
  proof (cases "RegExp fnd ''g''")
    case (Inl e)
    with re show ?thesis by (simp add: rewriteTokens_def)
  next
    case re2: (Inr re2)
    let ?planned = "map (createRewriteValue re re2 repl) found"
    define strings where "strings = filter (\<lambda>t. rewriteChars t \<noteq> 0) ?planned"
    have "(rewriteValue (createRewriteValue re re2 repl t) \<noteq> None)
           = (rewriteChars (createRewriteValue re re2 repl t) \<noteq> 0)" if "t \<in> set found" for t
    proof (cases "test re (source t)")
      case True
      then have "rewriteValue (createRewriteValue re re2 repl t) \<noteq> None"
        by (simp add: create_matched)
      with assms[OF re re2 that] show ?thesis by simp
    next
      case False
      then show ?thesis by (simp add: create_unmatched)
    qed
    then have "filter (\<lambda>t. rewriteValue t \<noteq> None) ?planned = filter (\<lambda>t. rewriteChars t \<noteq> 0) ?planned"
      by (intro filter_cong[OF refl]) auto
    then have eq: "filter (\<lambda>t. rewriteValue t \<noteq> None) ?planned = strings"
      and eq': "filter (\<lambda>t. rewriteChars t \<noteq> 0) ?planned = strings"
      by (simp_all only: strings_def)
    have rt: "rewriteTokens v sql fnd repl found =
        (if length strings = 0 then Inr sql
         else if v then timer strings 0
                          \<lparr>bar_curr = 0, bar_total = length strings, bar_complete = False\<rparr> sql
         else each strings sql)" for v
      unfolding rewriteTokens_def Let_def
      by (simp only: re re2 eq eq' sum.case)
    show ?thesis
    proof (cases "strings = []")
      case True
      then show ?thesis by (simp add: rt)
    next
      case False
      then have "0 < length strings" by simp
      from timer_each[OF this, of sql] False show ?thesis
        by (simp add: rt)
    qed
  qed
qed

text \<open>
  Claim C6, at the input \<open>;s:1:"a";\<close> with find \<open>.+\<close> and replace \<open>$'\<close>. The pattern
  matches the whole source text of the token and the replacement is the empty text
  after it, so the token counts as a match and is then filtered out of the plan: the
  plan is empty and \<open>replaceCount\<close> is 1. Without progress bar the loop over the plan
  does nothing and the document is passed on; with progress bar the timer reads
  \<open>strings[0]\<close>, which is \<open>undefined\<close>, and throws. The first run writes its output and
  exits with code 0, the second writes nothing and exits with code 1.
\<close>

theorem verbose_loop_failing_input: \<open>
    rewriteSerializedSql False '';s:1:"a";'' ''.+'' (''$'' @ apostrophe) = Inr '';s:1:"a";''
  \<and> rewriteSerializedSql True '';s:1:"a";'' ''.+'' (''$'' @ apostrophe) = Inl TypeError
  \<and> main (cli ''in.sql'' ''out.sql'' ''.+'' (''$'' @ apostrophe) False)
         (single_file ''in.sql'' '';s:1:"a";'')
      = \<lparr>exit_code = 0, written = [(''out.sql'', [])]\<rparr>
  \<and> main (cli ''in.sql'' ''out.sql'' ''.+'' (''$'' @ apostrophe) True)
         (single_file ''in.sql'' '';s:1:"a";'')
      = \<lparr>exit_code = 1, written = []\<rparr>\<close>
  by code_simp

section \<open>The search key of the patcher\<close>

text \<open>
  Claim C9. \<open>patch\<close> builds its pattern from the token's value as it stands. Three
  scanned tokens whose value holds a character with a meaning in patterns:
  \<^item> the value \<open>a+b\<close>: the pattern matches nothing in the document, which stays as it
    was although the token is planned;
  \<^item> the value \<open>a.c\<close>: the pattern matches \<open>s:3:"abc"\<close> earlier in the document, and
    that text is replaced while the token itself stays as it was;
  \<^item> the value \<open>(\<close>: building the pattern throws.
\<close>

theorem unescaped_search_key: \<open>
    findSerializedStrings '';s:3:"a+b";''
      = Inr [\<lparr>source = '';s:3:"a+b";'', chars = 3, val = ''a+b''\<rparr>]
  \<and> patch '';s:3:"a+b";''
        \<lparr>source = '';s:3:"a+b";'', chars = 3, val = ''a+b'',
         rewriteChars = 3, rewriteValue = Some '';s:3:"a+c";''\<rparr>
      = Inr '';s:3:"a+b";''
  \<and> rewriteSerializedSql False '';s:3:"a+b";'' ''b'' ''c'' = Inr '';s:3:"a+b";''
  \<and> findSerializedStrings ''s:3:"abc";s:3:"a.c";''
      = Inr [\<lparr>source = '';s:3:"a.c";'', chars = 3, val = ''a.c''\<rparr>]
  \<and> patch ''s:3:"abc";s:3:"a.c";''
        \<lparr>source = '';s:3:"a.c";'', chars = 3, val = ''a.c'',
         rewriteChars = 3, rewriteValue = Some '';s:3:"a.d";''\<rparr>
      = Inr ''s:3:";s:3:"a.d";";s:3:"a.c";''
  \<and> rewriteSerializedSql False ''s:3:"abc";s:3:"a.c";'' ''c";$'' ''d";''
      = Inr ''s:3:";s:3:"a.d";";s:3:"a.c";''
  \<and> findSerializedStrings '';s:1:"(";''
      = Inr [\<lparr>source = '';s:1:"(";'', chars = 1, val = ''(''\<rparr>]
  \<and> patch '';s:1:"(";''
        \<lparr>source = '';s:1:"(";'', chars = 1, val = ''('',
         rewriteChars = 1, rewriteValue = Some '';s:1:"x";''\<rparr>
      = Inl SyntaxError
  \<and> rewriteSerializedSql False '';s:1:"(";'' ''[(]'' ''x'' = Inl SyntaxError\<close>
  by code_simp

end
